theory Spec2Isabelle
  imports Complex_Main
begin

section \<open>Data model\<close>

text \<open>
  The embedding follows \<^verbatim>\<open>src/pylgrim/ESPPRC.py\<close>. Costs and resource amounts are
  Python/numpy floats there; they are modelled as real numbers. Every exception the
  source can raise is a value of \<open>error\<close>; \<open>SystemExit\<close> is what \<^verbatim>\<open>quit()\<close> raises and
  \<open>NodeNotFound\<close> what the graph library raises for a start node outside the graph.
  Calls of \<^verbatim>\<open>logging\<close> only read the state and are left out.
\<close>

datatype error = KeyError | IndexError | ValueError | UnboundLocalError | AttributeError | SystemExit
  | NodeNotFound

text \<open>An edge's attribute dictionary: \<^verbatim>\<open>e['weight']\<close> and \<^verbatim>\<open>e['res_cost']\<close>.\<close>

record edge =
  weight :: real
  res_cost :: "real list"

text \<open>
  A networkx \<^verbatim>\<open>DiGraph\<close>: the graph attribute \<^verbatim>\<open>n_res\<close>, the nodes in insertion order, and
  for every node its successor dictionary \<^verbatim>\<open>G.succ[u]\<close> in insertion order.
\<close>

record 'n digraph =
  n_res :: nat
  nodes :: "'n list"
  succ :: "'n \<Rightarrow> ('n \<times> edge) list"

text \<open>A label is the tuple \<^verbatim>\<open>(cost, resources)\<close>, the resources a numpy vector.\<close>

type_synonym label = "real \<times> real list"

text \<open>\<^verbatim>\<open>res_min\<close>: a list, one entry per resource, of dictionaries node \<open>\<rightharpoonup>\<close> (node \<open>\<rightharpoonup>\<close> distance).\<close>

type_synonym 'n bounds = "('n \<rightharpoonup> ('n \<rightharpoonup> real)) list"

text \<open>
  The working state of one \<^verbatim>\<open>GLSA\<close> invocation: the dictionaries \<^verbatim>\<open>paths\<close> and \<^verbatim>\<open>labels\<close>
  and the set \<^verbatim>\<open>L\<close> of pending \<^verbatim>\<open>(node, index)\<close> pairs. \<open>L\<close> is kept as a duplicate-free
  list; the order in which Python iterates over the set is not fixed by the language,
  so every function that iterates over it takes that order as the parameter \<open>io\<close>
  (from the stored list to the sequence the iteration yields).
\<close>

record 'n search_state =
  paths :: "'n \<rightharpoonup> 'n list list"
  labels :: "'n \<rightharpoonup> label list"
  L :: "('n \<times> nat) list"

subsection \<open>Dictionary, list and set primitives\<close>

definition dict_get :: "('k \<rightharpoonup> 'v) \<Rightarrow> 'k \<Rightarrow> error + 'v" where
  "dict_get d k = (case d k of None \<Rightarrow> Inl KeyError | Some v \<Rightarrow> Inr v)"

definition list_get :: "'a list \<Rightarrow> nat \<Rightarrow> error + 'a" where
  "list_get xs i = (if i < length xs then Inr (xs ! i) else Inl IndexError)"

text \<open>\<^verbatim>\<open>d.get(k, 0.0)\<close> on a dictionary of distances.\<close>

definition get_or_zero :: "('k \<rightharpoonup> real) \<Rightarrow> 'k \<Rightarrow> real" where
  "get_or_zero d k = (case d k of None \<Rightarrow> 0 | Some x \<Rightarrow> x)"

text \<open>\<^verbatim>\<open>xs.pop(i)\<close> for a non-negative index; out of range it raises \<^verbatim>\<open>IndexError\<close>.\<close>

definition pop :: "'a list \<Rightarrow> nat \<Rightarrow> error + 'a list" where
  "pop xs i = (if i < length xs then Inr (take i xs @ drop (Suc i) xs) else Inl IndexError)"

text \<open>A \<^verbatim>\<open>for\<close> loop whose body may raise: the first error ends the loop.\<close>

fun for_each :: "('a \<Rightarrow> 's \<Rightarrow> error + 's) \<Rightarrow> 'a list \<Rightarrow> 's \<Rightarrow> error + 's" where
  "for_each body [] st = Inr st"
| "for_each body (x # xs) st =
     (case body x st of Inl e \<Rightarrow> Inl e | Inr st' \<Rightarrow> for_each body xs st')"

text \<open>\<^verbatim>\<open>S.index(v)\<close>; the source calls it only for a member of \<open>S\<close>.\<close>

fun index :: "'a list \<Rightarrow> 'a \<Rightarrow> nat" where
  "index [] x = 0"
| "index (y # ys) x = (if y = x then 0 else Suc (index ys x))"

text \<open>\<^verbatim>\<open>L.add(x)\<close> and \<^verbatim>\<open>L.remove(x)\<close>; removing an absent element raises \<^verbatim>\<open>KeyError\<close>.\<close>

definition set_add :: "'a \<Rightarrow> 'a list \<Rightarrow> 'a list" where
  "set_add x xs = (if x \<in> set xs then xs else xs @ [x])"

definition set_remove :: "'a \<Rightarrow> 'a list \<Rightarrow> error + 'a list" where
  "set_remove x xs = (if x \<in> set xs then Inr (removeAll x xs) else Inl KeyError)"

text \<open>\<^verbatim>\<open>G.succ[u]\<close>: a node that is not in the graph raises \<^verbatim>\<open>KeyError\<close>.\<close>

definition succ_items :: "'n digraph \<Rightarrow> 'n \<Rightarrow> error + ('n \<times> edge) list" where
  "succ_items G u = (if u \<in> set (nodes G) then Inr (succ G u) else Inl KeyError)"

section \<open>Dominance\<close>

text \<open>
  \<^verbatim>\<open>_is_dominated(a, b)\<close>, lines 289-299. numpy compares the two resource vectors
  entry by entry; within one search all vectors have \<open>n_res + |S|\<close> entries, and the
  model pairs the entries with \<open>zip\<close>.
\<close>

definition is_dominated :: "label \<Rightarrow> label \<Rightarrow> bool" where
  "is_dominated a b =
     (if fst a = fst b \<and> list_all (\<lambda>(x, y). x = y) (zip (snd a) (snd b)) then False
      else (let label_dominated = True;
                label_dominated = (if fst a < fst b then False else label_dominated);
                label_dominated = (if list_ex (\<lambda>(x, y). x < y) (zip (snd a) (snd b))
                                   then False else label_dominated)
            in label_dominated))"

section \<open>The label-setting search GLSA\<close>

subsection \<open>Initialisation, lines 101-111\<close>

definition GLSA_init :: "'n digraph \<Rightarrow> 'n list \<Rightarrow> 'n \<Rightarrow> 'n search_state" where
  "GLSA_init G S source =
     \<lparr> paths = [source \<mapsto> [[source]]],
       labels = [source \<mapsto> [(0, replicate (n_res G + length S) 0)]],
       L = [(source, 0)] \<rparr>"

subsection \<open>Selection of the label to extend, lines 116-139\<close>

text \<open>\<^verbatim>\<open>labels[label[0]][label[1]]\<close> for a pending pair \<open>label\<close>.\<close>

definition label_at :: "('n \<rightharpoonup> label list) \<Rightarrow> 'n \<times> nat \<Rightarrow> error + label" where
  "label_at lbs p =
     (case dict_get lbs (fst p) of Inl e \<Rightarrow> Inl e | Inr ls \<Rightarrow> list_get ls (snd p))"

text \<open>
  The inner loop, lines 122-128, over the candidates \<open>LML_for_prev_res\<close> with the running
  value \<open>res_LML\<close> (\<open>None\<close> is the initial \<^verbatim>\<open>inf\<close>); the result is \<open>LML_for_this_res\<close>.
\<close>

fun scan_res :: "('n \<rightharpoonup> label list) \<Rightarrow> nat \<Rightarrow> real option \<Rightarrow> ('n \<times> nat) list
    \<Rightarrow> error + ('n \<times> nat) list" where
  "scan_res lbs res res_LML [] = Inr []"
| "scan_res lbs res res_LML (label # rest) =
     (case label_at lbs label of Inl e \<Rightarrow> Inl e | Inr lab \<Rightarrow>
       (case list_get (snd lab) res of Inl e \<Rightarrow> Inl e | Inr res_loc \<Rightarrow>
          if (case res_LML of None \<Rightarrow> True | Some m \<Rightarrow> res_loc \<le> m)
          then (case scan_res lbs res (Some res_loc) rest of Inl e \<Rightarrow> Inl e
                | Inr this \<Rightarrow> Inr (label # this))
          else scan_res lbs res res_LML rest))"

text \<open>
  The outer loop, lines 119-138, over the resource indices still to treat, with
  \<open>LML_for_prev_res\<close> and the current \<open>u_label\<close> (\<open>None\<close> while unbound).
\<close>

fun select_loop :: "('n \<rightharpoonup> label list) \<Rightarrow> nat list \<Rightarrow> ('n \<times> nat) list \<Rightarrow> ('n \<times> nat) option
    \<Rightarrow> error + ('n \<times> nat) option" where
  "select_loop lbs [] prev u_label = Inr u_label"
| "select_loop lbs (res # rs) prev u_label =
     (case scan_res lbs res None prev of Inl e \<Rightarrow> Inl e | Inr this \<Rightarrow>
       (case this of [] \<Rightarrow> Inl IndexError
        | x # xs \<Rightarrow> if length this = 1 then Inr (Some x) else select_loop lbs rs this (Some x)))"

text \<open>
  Lines 118-139 as a whole: the pair selected and \<open>L\<close> without it. With no resource
  dimension at all \<open>u_label\<close> is still unbound at \<^verbatim>\<open>L.remove(u_label)\<close>.
\<close>

definition GLSA_select :: "(('n \<times> nat) list \<Rightarrow> ('n \<times> nat) list) \<Rightarrow> ('n \<rightharpoonup> label list) \<Rightarrow> nat
    \<Rightarrow> ('n \<times> nat) list \<Rightarrow> error + (('n \<times> nat) \<times> ('n \<times> nat) list)" where
  "GLSA_select io lbs n_dims pending =
     (case select_loop lbs [0..<n_dims] (io pending) None of Inl e \<Rightarrow> Inl e
      | Inr None \<Rightarrow> Inl UnboundLocalError
      | Inr (Some u_label) \<Rightarrow>
          (case set_remove u_label pending of Inl e \<Rightarrow> Inl e
           | Inr pending' \<Rightarrow> Inr (u_label, pending')))"

subsection \<open>Edge relaxation, lines 145-241\<close>

text \<open>
  Lines 157-160: the increment \<open>e_loc\<close> of the edge into \<open>v\<close>. The slice assignment
  \<^verbatim>\<open>e_loc[0:n_res] = res_cost\<close> needs \<open>n_res\<close> entries (numpy repeats a single entry) and
  raises \<^verbatim>\<open>ValueError\<close> otherwise.
\<close>

definition e_loc :: "nat \<Rightarrow> 'n list \<Rightarrow> 'n \<Rightarrow> edge \<Rightarrow> error + real list" where
  "e_loc nr S v e =
     (if length (res_cost e) = nr \<or> length (res_cost e) = 1 then
        let rc = (if length (res_cost e) = nr then res_cost e
                  else replicate nr (hd (res_cost e)));
            z = rc @ replicate (length S) 0
        in Inr (if v \<in> set S then z[nr + index S v := 1] else z)
      else Inl ValueError)"

text \<open>
  Lines 165-169, "check edge resources": the value of \<open>add_label\<close> after the loop over
  the resources \<open>rs\<close>; it stops at the first resource that cannot reach the target.
\<close>

fun check_edge_res :: "'n bounds \<Rightarrow> real list \<Rightarrow> 'n \<Rightarrow> 'n \<Rightarrow> real list \<Rightarrow> nat list \<Rightarrow> error + bool" where
  "check_edge_res res_min max_res v target r [] = Inr True"
| "check_edge_res res_min max_res v target r (res # rs) =
     (case list_get r res of Inl e \<Rightarrow> Inl e | Inr x \<Rightarrow>
       (case list_get res_min res of Inl e \<Rightarrow> Inl e | Inr tbl \<Rightarrow>
         (case dict_get tbl v of Inl e \<Rightarrow> Inl e | Inr row \<Rightarrow>
           (case list_get max_res res of Inl e \<Rightarrow> Inl e | Inr m \<Rightarrow>
              if x + get_or_zero row target > m then Inr False
              else check_edge_res res_min max_res v target r rs))))"

text \<open>Lines 172-176, "check node resources": false when a node of \<open>S\<close> is used twice.\<close>

fun check_node_res :: "nat \<Rightarrow> real list \<Rightarrow> nat list \<Rightarrow> error + bool" where
  "check_node_res nr r [] = Inr True"
| "check_node_res nr r (res # rs) =
     (case list_get r (nr + res) of Inl e \<Rightarrow> Inl e | Inr x \<Rightarrow>
        if x > 1 then Inr False else check_node_res nr r rs)"

text \<open>
  Lines 201-206, "strong dominance": the inner loop over the resources for one node
  \<open>n\<close> of \<open>S\<close>, then the loop over the nodes of \<open>S\<close>. The bound consulted is
  \<^verbatim>\<open>res_min[res][n].get(n, 0.0)\<close>.
\<close>

fun strong_res :: "'n bounds \<Rightarrow> real list \<Rightarrow> 'n list \<Rightarrow> nat \<Rightarrow> 'n \<Rightarrow> nat list \<Rightarrow> real list
    \<Rightarrow> error + real list" where
  "strong_res res_min max_res S nr n [] r = Inr r"
| "strong_res res_min max_res S nr n (res # rs) r =
     (case list_get r res of Inl e \<Rightarrow> Inl e | Inr x \<Rightarrow>
       (case list_get res_min res of Inl e \<Rightarrow> Inl e | Inr tbl \<Rightarrow>
         (case dict_get tbl n of Inl e \<Rightarrow> Inl e | Inr row \<Rightarrow>
           (case list_get max_res res of Inl e \<Rightarrow> Inl e | Inr m \<Rightarrow>
              if x + get_or_zero row n > m then
                (case list_get r (nr + index S n) of Inl e \<Rightarrow> Inl e | Inr y \<Rightarrow>
                   strong_res res_min max_res S nr n rs
                     (if y = 0 then r[nr + index S n := 1] else r))
              else strong_res res_min max_res S nr n rs r))))"

definition strong_dominance :: "'n bounds \<Rightarrow> real list \<Rightarrow> 'n list \<Rightarrow> nat \<Rightarrow> real list
    \<Rightarrow> error + real list" where
  "strong_dominance res_min max_res S nr r =
     for_each (\<lambda>n. strong_res res_min max_res S nr n [0..<nr]) S r"

text \<open>
  Lines 218-227: the label and the path at index \<open>i_label\<close> of node \<open>v\<close> are popped, the
  pair \<open>(v, i_label)\<close> leaves \<open>L\<close>, and every pending pair of \<open>v\<close> with a larger index is
  renumbered (collected in \<open>L_rename\<close>, then added back).
\<close>

fun rename_loop :: "'n \<Rightarrow> nat list \<Rightarrow> ('n \<times> nat) list \<times> ('n \<times> nat) list
    \<Rightarrow> ('n \<times> nat) list \<times> ('n \<times> nat) list" where
  "rename_loop v [] (pending, L_rename) = (pending, L_rename)"
| "rename_loop v (i # rest) (pending, L_rename) =
     (if (v, i) \<in> set pending
      then rename_loop v rest (removeAll (v, i) pending, set_add (v, i - 1) L_rename)
      else rename_loop v rest (pending, L_rename))"

definition pop_label :: "'n \<Rightarrow> nat \<Rightarrow> 'n search_state \<Rightarrow> error + 'n search_state" where
  "pop_label v i_label st =
     (case dict_get (labels st) v of Inl e \<Rightarrow> Inl e | Inr ls \<Rightarrow>
       (case pop ls i_label of Inl e \<Rightarrow> Inl e | Inr ls' \<Rightarrow>
         (case dict_get (paths st) v of Inl e \<Rightarrow> Inl e | Inr ps \<Rightarrow>
           (case pop ps i_label of Inl e \<Rightarrow> Inl e | Inr ps' \<Rightarrow>
              let L1 = (if (v, i_label) \<in> set (L st) then removeAll (v, i_label) (L st)
                        else L st);
                  renamed = rename_loop v [i_label + 1 ..< length ls' + 1] (L1, [])
              in Inr (st\<lparr> paths := (paths st)(v \<mapsto> ps'),
                           labels := (labels st)(v \<mapsto> ls'),
                           L := fold set_add (snd renamed) (fst renamed) \<rparr>)))))"

text \<open>
  Lines 212-230, "remove dominated labels": the \<^verbatim>\<open>while i_label < n_labels\<close> loop. After a
  removal the source decrements both counters and then increments \<open>i_label\<close>, so the index
  stays and \<open>n_labels\<close> drops by one.
\<close>

function remove_dominated :: "'n \<Rightarrow> label \<Rightarrow> nat \<Rightarrow> nat \<Rightarrow> 'n search_state
    \<Rightarrow> error + 'n search_state" where
  "remove_dominated v v_label i_label n_labels st =
     (if i_label < n_labels then
        (case label_at (labels st) (v, i_label) of Inl e \<Rightarrow> Inl e | Inr label \<Rightarrow>
           if is_dominated label v_label then
             (case pop_label v i_label st of Inl e \<Rightarrow> Inl e
              | Inr st' \<Rightarrow> remove_dominated v v_label i_label (n_labels - 1) st')
           else remove_dominated v v_label (i_label + 1) n_labels st)
      else Inr st)"
  by pat_completeness auto
termination
  by (relation "measure (\<lambda>(v, v_label, i_label, n_labels, st). n_labels - i_label)") auto

declare remove_dominated.simps [simp del]

text \<open>
  Lines 179-237: a candidate \<open>v_label\<close> that passed both resource checks is compared with
  the labels of \<open>v\<close>; when none dominates it, it is tightened, the labels it dominates are
  removed, and it is stored with its path and made pending.
\<close>

definition insert_label :: "'n bounds \<Rightarrow> real list \<Rightarrow> 'n list \<Rightarrow> nat \<Rightarrow> 'n \<Rightarrow> nat \<Rightarrow> 'n \<Rightarrow> label
    \<Rightarrow> 'n search_state \<Rightarrow> error + 'n search_state" where
  "insert_label res_min max_res S nr u l v v_label st =
     (let label_dominated =
            list_ex (\<lambda>label. is_dominated v_label label)
              (case labels st v of None \<Rightarrow> [] | Some ls \<Rightarrow> ls)
      in if label_dominated then Inr st
         else
           let st1 = (if labels st v = None
                      then st\<lparr> paths := (paths st)(v \<mapsto> []), labels := (labels st)(v \<mapsto> []) \<rparr>
                      else st)
           in (case dict_get (paths st1) u of Inl e \<Rightarrow> Inl e | Inr pu \<Rightarrow>
                (case list_get pu l of Inl e \<Rightarrow> Inl e | Inr p \<Rightarrow>
                  (case strong_dominance res_min max_res S nr (snd v_label) of Inl e \<Rightarrow> Inl e
                   | Inr r \<Rightarrow>
                     (case remove_dominated v (fst v_label, r) 0
                             (length (case labels st1 v of None \<Rightarrow> [] | Some ls \<Rightarrow> ls)) st1 of
                        Inl e \<Rightarrow> Inl e
                      | Inr st2 \<Rightarrow>
                        (case dict_get (paths st2) v of Inl e \<Rightarrow> Inl e | Inr ps \<Rightarrow>
                          (case dict_get (labels st2) v of Inl e \<Rightarrow> Inl e | Inr ls \<Rightarrow>
                             Inr (st2\<lparr> paths := (paths st2)(v \<mapsto> ps @ [p @ [v]]),
                                        labels := (labels st2)(v \<mapsto> ls @ [(fst v_label, r)]),
                                        L := set_add (v, length (ls @ [(fst v_label, r)]) - 1)
                                               (L st2) \<rparr>))))))))"

text \<open>
  The body of the loop over the successors, lines 145-241, for the edge into \<open>v\<close> with
  attributes \<open>e\<close>, extending label \<open>l\<close> of node \<open>u\<close>.
\<close>

definition relax_edge :: "'n digraph \<Rightarrow> 'n list \<Rightarrow> 'n \<Rightarrow> 'n \<Rightarrow> real list \<Rightarrow> 'n bounds \<Rightarrow> 'n \<Rightarrow> nat
    \<Rightarrow> 'n \<times> edge \<Rightarrow> 'n search_state \<Rightarrow> error + 'n search_state" where
  "relax_edge G S source target max_res res_min u l ve st =
     (let v = fst ve; e = snd ve in
      if v = source then Inl SystemExit
      else
        (case e_loc (n_res G) S v e of Inl err \<Rightarrow> Inl err | Inr el \<Rightarrow>
          (case label_at (labels st) (u, l) of Inl err \<Rightarrow> Inl err | Inr ul \<Rightarrow>
             let v_label = (fst ul + weight e, map2 (+) (snd ul) el) in
             (case check_edge_res res_min max_res v target (snd v_label) [0..<n_res G] of
                Inl err \<Rightarrow> Inl err
              | Inr edge_ok \<Rightarrow>
                (case check_node_res (n_res G) (snd v_label) [0..<length S] of
                   Inl err \<Rightarrow> Inl err
                 | Inr node_ok \<Rightarrow>
                   if edge_ok \<and> node_ok
                   then insert_label res_min max_res S (n_res G) u l v v_label st
                   else Inr st)))))"

subsection \<open>The main loop and the result, lines 115-253\<close>

text \<open>One pass of the \<^verbatim>\<open>while L\<close> loop: select, remove from \<open>L\<close>, extend along every edge.\<close>

definition GLSA_iter :: "(('n \<times> nat) list \<Rightarrow> ('n \<times> nat) list) \<Rightarrow> 'n digraph \<Rightarrow> 'n list \<Rightarrow> 'n \<Rightarrow> 'n
    \<Rightarrow> real list \<Rightarrow> 'n bounds \<Rightarrow> 'n search_state \<Rightarrow> error + 'n search_state" where
  "GLSA_iter io G S source target max_res res_min st =
     (case GLSA_select io (labels st) (n_res G + length S) (L st) of Inl e \<Rightarrow> Inl e
      | Inr sel \<Rightarrow>
        (case succ_items G (fst (fst sel)) of Inl e \<Rightarrow> Inl e
         | Inr es \<Rightarrow>
             for_each (relax_edge G S source target max_res res_min (fst (fst sel)) (snd (fst sel)))
               es (st\<lparr> L := snd sel \<rparr>)))"

text \<open>
  The loop may run forever (a cycle of negative cost that consumes no resource yields
  ever cheaper labels), so it is a partial function: \<open>None\<close> is "does not return".
\<close>

partial_function (option) GLSA_loop :: "(('n \<times> nat) list \<Rightarrow> ('n \<times> nat) list) \<Rightarrow> 'n digraph
    \<Rightarrow> 'n list \<Rightarrow> 'n \<Rightarrow> 'n \<Rightarrow> real list \<Rightarrow> 'n bounds \<Rightarrow> 'n search_state
    \<Rightarrow> (error + 'n search_state) option" where
  "GLSA_loop io G S source target max_res res_min st =
     (if L st = [] then Some (Inr st)
      else (case GLSA_iter io G S source target max_res res_min st of
              Inl e \<Rightarrow> Some (Inl e)
            | Inr st' \<Rightarrow> GLSA_loop io G S source target max_res res_min st'))"

declare GLSA_loop.simps [code]

text \<open>
  Lines 247-253: the scan for the cheapest label of the target, with \<open>least_cost\<close>
  (\<open>None\<close> is \<^verbatim>\<open>inf\<close>) and the current \<open>(best_path, best_label)\<close> (\<open>None\<close> while unbound).
\<close>

fun cheapest :: "label list \<Rightarrow> 'n list list \<Rightarrow> nat list \<Rightarrow> real option \<Rightarrow> ('n list \<times> label) option
    \<Rightarrow> error + ('n list \<times> label) option" where
  "cheapest ls ps [] least_cost best = Inr best"
| "cheapest ls ps (p # rest) least_cost best =
     (case list_get ls p of Inl e \<Rightarrow> Inl e | Inr lab \<Rightarrow>
        if (case least_cost of None \<Rightarrow> True | Some c \<Rightarrow> fst lab < c)
        then (case list_get ps p of Inl e \<Rightarrow> Inl e
              | Inr pa \<Rightarrow> cheapest ls ps rest (Some (fst lab)) (Some (pa, lab)))
        else cheapest ls ps rest least_cost best)"

definition GLSA_result :: "'n \<Rightarrow> 'n search_state \<Rightarrow> error + ('n list \<times> label)" where
  "GLSA_result target st =
     (case dict_get (labels st) target of Inl e \<Rightarrow> Inl e | Inr ls \<Rightarrow>
       (case dict_get (paths st) target of Inl e \<Rightarrow> Inl e | Inr ps \<Rightarrow>
         (case cheapest ls ps [0..<length ls] None None of Inl e \<Rightarrow> Inl e
          | Inr None \<Rightarrow> Inl UnboundLocalError
          | Inr (Some best) \<Rightarrow> Inr best)))"

definition GLSA :: "(('n \<times> nat) list \<Rightarrow> ('n \<times> nat) list) \<Rightarrow> 'n digraph \<Rightarrow> 'n list \<Rightarrow> 'n \<Rightarrow> 'n
    \<Rightarrow> real list \<Rightarrow> 'n bounds \<Rightarrow> (error + ('n list \<times> label)) option" where
  "GLSA io G S source target max_res res_min =
     (case GLSA_loop io G S source target max_res res_min (GLSA_init G S source) of
        None \<Rightarrow> None
      | Some (Inl e) \<Rightarrow> Some (Inl e)
      | Some (Inr st) \<Rightarrow> Some (GLSA_result target st))"

section \<open>The augmentation loop GSSA\<close>

text \<open>
  Modelled from the spec: \<^verbatim>\<open>path_tools.count_elems\<close> is not among the sources. The spec
  has it "count node multiplicities in the returned path"; the result is a dictionary
  from each node of the path to the number of its occurrences, here in the order of
  first occurrence.
\<close>

fun count_elems :: "'n list \<Rightarrow> ('n \<times> nat) list" where
  "count_elems [] = []"
| "count_elems (x # xs) =
     (x, Suc (count_list xs x)) # filter (\<lambda>p. fst p \<noteq> x) (count_elems xs)"

text \<open>\<^verbatim>\<open>max(path_elems.values())\<close>, line 271; on an empty dictionary \<^verbatim>\<open>max\<close> raises.\<close>

definition max_value :: "('n \<times> nat) list \<Rightarrow> error + nat" where
  "max_value path_elems =
     (case path_elems of [] \<Rightarrow> Inl ValueError
      | p # ps \<Rightarrow> Inr (fold (\<lambda>q m. if snd q > m then snd q else m) ps (snd p)))"

text \<open>\<^verbatim>\<open>max(path_elems, key=path_elems.get)\<close>, line 278: the first key of greatest value.\<close>

definition max_key :: "('n \<times> nat) list \<Rightarrow> error + 'n" where
  "max_key path_elems =
     (case path_elems of [] \<Rightarrow> Inl ValueError
      | p # ps \<Rightarrow> Inr (fst (fold (\<lambda>q best. if snd q > snd best then q else best) ps p)))"

text \<open>
  Lines 266-286: the loop \<^verbatim>\<open>while not DLA_done\<close>, with the list \<open>S\<close> as its state. It
  returns when the search does and its path has greatest multiplicity 1.
\<close>

partial_function (option) GSSA_loop :: "(('n \<times> nat) list \<Rightarrow> ('n \<times> nat) list) \<Rightarrow> 'n digraph
    \<Rightarrow> 'n \<Rightarrow> 'n \<Rightarrow> real list \<Rightarrow> 'n bounds \<Rightarrow> 'n list
    \<Rightarrow> (error + ('n list \<times> label)) option" where
  "GSSA_loop io G source target max_res res_min S =
     (case GLSA io G S source target max_res res_min of
        None \<Rightarrow> None
      | Some (Inl e) \<Rightarrow> Some (Inl e)
      | Some (Inr found) \<Rightarrow>
          (case max_value (count_elems (fst found)) of
             Inl e \<Rightarrow> Some (Inl e)
           | Inr path_max_mult \<Rightarrow>
               if path_max_mult = 1 then Some (Inr found)
               else (case max_key (count_elems (fst found)) of
                       Inl e \<Rightarrow> Some (Inl e)
                     | Inr node_max_mult \<Rightarrow>
                         GSSA_loop io G source target max_res res_min (S @ [node_max_mult]))))"

declare GSSA_loop.simps [code]

definition GSSA :: "(('n \<times> nat) list \<Rightarrow> ('n \<times> nat) list) \<Rightarrow> 'n digraph \<Rightarrow> 'n \<Rightarrow> 'n \<Rightarrow> real list
    \<Rightarrow> 'n bounds \<Rightarrow> (error + ('n list \<times> label)) option" where
  "GSSA io G source target max_res res_min = GSSA_loop io G source target max_res res_min []"

section \<open>Preprocessing\<close>

subsection \<open>Graph operations of the library\<close>

text \<open>\<^verbatim>\<open>G.has_edge(u, v)\<close> and \<^verbatim>\<open>G.get_edge_data(u, v)\<close>.\<close>

definition get_edge_data :: "'n digraph \<Rightarrow> 'n \<Rightarrow> 'n \<Rightarrow> edge option" where
  "get_edge_data G u v = (if u \<in> set (nodes G) then map_of (succ G u) v else None)"

definition has_edge :: "'n digraph \<Rightarrow> 'n \<Rightarrow> 'n \<Rightarrow> bool" where
  "has_edge G u v = (get_edge_data G u v \<noteq> None)"

text \<open>
  \<^verbatim>\<open>H.add_edge(u, v, weight=..., res_cost=...)\<close>: both end points become nodes when they
  are not yet, and the edge is entered among the successors of \<open>u\<close> (an edge already
  there keeps its place and takes the new attributes).
\<close>

definition add_node :: "'n \<Rightarrow> 'n list \<Rightarrow> 'n list" where
  "add_node u ns = (if u \<in> set ns then ns else ns @ [u])"

definition add_edge :: "'n digraph \<Rightarrow> 'n \<Rightarrow> 'n \<Rightarrow> edge \<Rightarrow> 'n digraph" where
  "add_edge H u v e =
     H\<lparr> nodes := add_node v (add_node u (nodes H)),
        succ := (succ H)(u :=
          (if v \<in> fst ` set (succ H u)
           then map (\<lambda>p. if fst p = v then (v, e) else p) (succ H u)
           else succ H u @ [(v, e)])) \<rparr>"

text \<open>\<^verbatim>\<open>G.reverse(copy=True)\<close>: every edge \<open>u \<rightarrow> v\<close> becomes \<open>v \<rightarrow> u\<close> with the same attributes.\<close>

definition reverse :: "'n digraph \<Rightarrow> 'n digraph" where
  "reverse G =
     G\<lparr> succ := (\<lambda>v. concat (map (\<lambda>u. map (\<lambda>p. (u, snd p)) (filter (\<lambda>p. fst p = v) (succ G u)))
                              (nodes G))) \<rparr>"

subsection \<open>Reachable nodes, lines 45-64\<close>

text \<open>
  The loop over the resources. \<open>sssp G s cutoff res\<close> stands for the library call
  \<^verbatim>\<open>nx.single_source_dijkstra_path_length(G, s, cutoff=cutoff, weight=_res_cost_i)\<close> with the
  global \<^verbatim>\<open>resource_treated\<close> set to \<open>res\<close>; its result is the list of the keys of the
  dictionary returned. \<open>reachable_nodes\<close> is a Python set, and \<^verbatim>\<open>set.append\<close> does not
  exist: reaching line 58 or line 64 raises \<^verbatim>\<open>AttributeError\<close>.
\<close>

fun reachable_loop :: "('n digraph \<Rightarrow> 'n \<Rightarrow> real \<Rightarrow> nat \<Rightarrow> error + 'n list) \<Rightarrow> 'n digraph \<Rightarrow> 'n \<Rightarrow> 'n
    \<Rightarrow> real list \<Rightarrow> nat list \<Rightarrow> 'n list \<Rightarrow> error + 'n list" where
  "reachable_loop sssp G source target max_res [] reachable_nodes = Inr reachable_nodes"
| "reachable_loop sssp G source target max_res (res # rs) reachable_nodes =
     (case list_get max_res res of Inl e \<Rightarrow> Inl e | Inr cutoff \<Rightarrow>
       (case sssp G source cutoff res of Inl e \<Rightarrow> Inl e | Inr lengths \<Rightarrow>
          let reachable1 = filter (\<lambda>x. x \<in> set lengths) reachable_nodes in
          if source \<notin> set reachable1 then Inl AttributeError
          else
            (case sssp (reverse G) target cutoff res of Inl e \<Rightarrow> Inl e | Inr lengths' \<Rightarrow>
               let reachable2 = filter (\<lambda>x. x \<in> set lengths') reachable1 in
               if target \<notin> set reachable2 then Inl AttributeError
               else reachable_loop sssp G source target max_res rs reachable2)))"

subsection \<open>The reduced graph, lines 72-78\<close>

text \<open>
  The double loop over the reachable nodes, given as the list \<open>rn\<close> in which the set is
  iterated. Nodes enter \<open>H\<close> only through \<^verbatim>\<open>add_edge\<close>.
\<close>

definition copy_edge :: "'n digraph \<Rightarrow> 'n \<Rightarrow> 'n \<Rightarrow> 'n digraph \<Rightarrow> 'n digraph" where
  "copy_edge G node node2 H =
     (if has_edge G node node2 \<and> \<not> has_edge H node node2 then
        (case get_edge_data G node node2 of None \<Rightarrow> H
         | Some e \<Rightarrow> add_edge H node node2 \<lparr> weight = weight e, res_cost = res_cost e \<rparr>)
      else H)"

definition reduced_graph :: "'n digraph \<Rightarrow> 'n list \<Rightarrow> 'n digraph" where
  "reduced_graph G rn =
     fold (\<lambda>node. fold (copy_edge G node) rn) rn \<lparr> n_res = n_res G, nodes = [], succ = (\<lambda>u. []) \<rparr>"

subsection \<open>preprocess_ESPPRC, lines 38-93\<close>

text \<open>
  \<open>apsp H res\<close> stands for \<^verbatim>\<open>dict(nx.all_pairs_dijkstra_path_length(H, weight=_res_cost_i))\<close>
  with \<^verbatim>\<open>resource_treated\<close> set to \<open>res\<close>, and \<open>ion\<close> for the order in which the set of
  reachable nodes is iterated.
\<close>

fun least_resource_pairs :: "('n digraph \<Rightarrow> nat \<Rightarrow> error + ('n \<rightharpoonup> ('n \<rightharpoonup> real))) \<Rightarrow> 'n digraph
    \<Rightarrow> nat list \<Rightarrow> error + 'n bounds" where
  "least_resource_pairs apsp H [] = Inr []"
| "least_resource_pairs apsp H (res # rs) =
     (case apsp H res of Inl e \<Rightarrow> Inl e | Inr tbl \<Rightarrow>
       (case least_resource_pairs apsp H rs of Inl e \<Rightarrow> Inl e | Inr tbls \<Rightarrow> Inr (tbl # tbls)))"

definition preprocess_ESPPRC :: "('n list \<Rightarrow> 'n list)
    \<Rightarrow> ('n digraph \<Rightarrow> 'n \<Rightarrow> real \<Rightarrow> nat \<Rightarrow> error + 'n list)
    \<Rightarrow> ('n digraph \<Rightarrow> nat \<Rightarrow> error + ('n \<rightharpoonup> ('n \<rightharpoonup> real)))
    \<Rightarrow> 'n digraph \<Rightarrow> 'n \<Rightarrow> 'n \<Rightarrow> real list \<Rightarrow> error + ('n digraph \<times> 'n bounds)" where
  "preprocess_ESPPRC ion sssp apsp G source target max_res =
     (case reachable_loop sssp G source target max_res [0..<n_res G] (nodes G) of
        Inl e \<Rightarrow> Inl e
      | Inr reachable_nodes \<Rightarrow>
          let H = reduced_graph G (ion reachable_nodes) in
          (case least_resource_pairs apsp H [0..<n_res G] of Inl e \<Rightarrow> Inl e
           | Inr res_min \<Rightarrow> Inr (H, res_min)))"

subsection \<open>A reference model of the library's shortest-path call\<close>

text \<open>
  \<^verbatim>\<open>_res_cost_i(u, v, e)\<close>, lines 302-305, with \<^verbatim>\<open>resource_treated\<close> equal to \<open>res\<close>.
\<close>

definition res_cost_i :: "nat \<Rightarrow> edge \<Rightarrow> error + real" where
  "res_cost_i res e = list_get (res_cost e) res"

text \<open>
  The library itself is not part of the repository. For graphs whose resource costs are
  not negative, \<^verbatim>\<open>single_source_dijkstra_path_length\<close> returns the nodes whose least
  total weight from the start node is at most the cutoff (the start node always, at
  distance 0). \<open>dijkstra_path_length\<close> computes these by relaxing every edge once per
  node of the graph; it serves to evaluate the preprocessing on concrete graphs.
\<close>

definition all_edges :: "'n digraph \<Rightarrow> ('n \<times> 'n \<times> edge) list" where
  "all_edges G = concat (map (\<lambda>u. map (\<lambda>p. (u, fst p, snd p)) (succ G u)) (nodes G))"

fun relax_all :: "nat \<Rightarrow> ('n \<times> 'n \<times> edge) list \<Rightarrow> ('n \<rightharpoonup> real) \<Rightarrow> error + ('n \<rightharpoonup> real)" where
  "relax_all res [] d = Inr d"
| "relax_all res ((u, v, e) # es) d =
     (case d u of None \<Rightarrow> relax_all res es d
      | Some du \<Rightarrow>
          (case res_cost_i res e of Inl err \<Rightarrow> Inl err
           | Inr c \<Rightarrow>
               relax_all res es
                 (case d v of None \<Rightarrow> d(v \<mapsto> du + c)
                  | Some dv \<Rightarrow> if du + c < dv then d(v \<mapsto> du + c) else d)))"

fun relax_rounds :: "nat \<Rightarrow> nat \<Rightarrow> ('n \<times> 'n \<times> edge) list \<Rightarrow> ('n \<rightharpoonup> real) \<Rightarrow> error + ('n \<rightharpoonup> real)" where
  "relax_rounds 0 res es d = Inr d"
| "relax_rounds (Suc k) res es d =
     (case relax_all res es d of Inl err \<Rightarrow> Inl err | Inr d' \<Rightarrow> relax_rounds k res es d')"

definition dijkstra_path_length :: "'n digraph \<Rightarrow> 'n \<Rightarrow> real \<Rightarrow> nat \<Rightarrow> error + 'n list" where
  "dijkstra_path_length G source cutoff res =
     (if source \<notin> set (nodes G) then Inl NodeNotFound
      else
        (case relax_rounds (length (nodes G)) res (all_edges G) [source \<mapsto> 0] of
           Inl err \<Rightarrow> Inl err
         | Inr d \<Rightarrow>
             Inr (filter (\<lambda>v. v = source \<or> (case d v of None \<Rightarrow> False | Some x \<Rightarrow> x \<le> cutoff))
                    (nodes G))))"

text \<open>
  Likewise \<^verbatim>\<open>dict(nx.all_pairs_dijkstra_path_length(H, weight=_res_cost_i))\<close>: for every
  node of \<open>H\<close> the dictionary of the least total weights from it (no cutoff).
\<close>

fun all_pairs_rows :: "'n digraph \<Rightarrow> nat \<Rightarrow> 'n list \<Rightarrow> error + ('n \<rightharpoonup> ('n \<rightharpoonup> real))" where
  "all_pairs_rows H res [] = Inr Map.empty"
| "all_pairs_rows H res (u # us) =
     (case relax_rounds (length (nodes H)) res (all_edges H) [u \<mapsto> 0] of Inl err \<Rightarrow> Inl err
      | Inr d \<Rightarrow>
          (case all_pairs_rows H res us of Inl err \<Rightarrow> Inl err
           | Inr tbl \<Rightarrow> Inr (tbl(u \<mapsto> d))))"

definition all_pairs_dijkstra_path_length :: "'n digraph \<Rightarrow> nat
    \<Rightarrow> error + ('n \<rightharpoonup> ('n \<rightharpoonup> real))" where
  "all_pairs_dijkstra_path_length H res = all_pairs_rows H res (nodes H)"

section \<open>Example instances\<close>

text \<open>
  The spec's scenario: nodes A, B, C, D (here 0, 1, 2, 3), edges A\<rightarrow>B (cost 1), B\<rightarrow>C
  (cost 1), A\<rightarrow>C (cost 5), C\<rightarrow>D (cost 1), every edge consuming one unit of the single
  resource, and the table of least consumptions between its nodes.
\<close>

definition unit_edge :: "real \<Rightarrow> edge" where
  "unit_edge c = \<lparr> weight = c, res_cost = [1] \<rparr>"

definition G_abcd :: "nat digraph" where
  "G_abcd = \<lparr> n_res = 1, nodes = [0, 1, 2, 3],
     succ = (\<lambda>u. if u = 0 then [(1, unit_edge 1), (2, unit_edge 5)]
                 else if u = 1 then [(2, unit_edge 1)]
                 else if u = 2 then [(3, unit_edge 1)]
                 else []) \<rparr>"

definition res_min_abcd :: "nat bounds" where
  "res_min_abcd =
     [map_of [(0, map_of [(0, 0), (1, 1), (2, 1), (3, 2)]),
              (1, map_of [(1, 0), (2, 1), (3, 2)]),
              (2, map_of [(2, 0), (3, 1)]),
              (3, map_of [(3, 0)])]]"

text \<open>
  The same nodes with a cycle B\<rightarrow>C\<rightarrow>B of negative cost: A\<rightarrow>B (cost 1), B\<rightarrow>C (cost -10),
  C\<rightarrow>B (cost 1), C\<rightarrow>D (cost 1), every edge consuming one unit.
\<close>

definition G_cycle :: "nat digraph" where
  "G_cycle = \<lparr> n_res = 1, nodes = [0, 1, 2, 3],
     succ = (\<lambda>u. if u = 0 then [(1, unit_edge 1)]
                 else if u = 1 then [(2, unit_edge (- 10))]
                 else if u = 2 then [(1, unit_edge 1), (3, unit_edge 1)]
                 else []) \<rparr>"

definition res_min_cycle :: "nat bounds" where
  "res_min_cycle =
     [map_of [(0, map_of [(0, 0), (1, 1), (2, 2), (3, 3)]),
              (1, map_of [(1, 0), (2, 1), (3, 2)]),
              (2, map_of [(2, 0), (1, 1), (3, 1)]),
              (3, map_of [(3, 0)])]]"

text \<open>
  A fork: the source 0 has the successors 1 and 2, both lead to the target 3. In \<open>G_fork\<close>
  the edge to node 1 consumes 5 units and the edge to node 2 consumes 3; \<open>G_fork_mirror\<close>
  swaps the two amounts. No bound is known (every row of the table is empty).
\<close>

definition res_edge :: "real \<Rightarrow> edge" where
  "res_edge r = \<lparr> weight = 1, res_cost = [r] \<rparr>"

definition G_fork :: "nat digraph" where
  "G_fork = \<lparr> n_res = 1, nodes = [0, 1, 2, 3],
     succ = (\<lambda>u. if u = 0 then [(1, res_edge 5), (2, res_edge 3)]
                 else if u = 1 then [(3, res_edge 1)]
                 else if u = 2 then [(3, res_edge 1)]
                 else []) \<rparr>"

definition G_fork_mirror :: "nat digraph" where
  "G_fork_mirror = \<lparr> n_res = 1, nodes = [0, 1, 2, 3],
     succ = (\<lambda>u. if u = 0 then [(1, res_edge 3), (2, res_edge 5)]
                 else if u = 1 then [(3, res_edge 1)]
                 else if u = 2 then [(3, res_edge 1)]
                 else []) \<rparr>"

definition res_min_none :: "nat bounds" where
  "res_min_none = [\<lambda>v. Some Map.empty]"

text \<open>
  A graph in which node 2 is cheap to reach from the source but expensive from node 1:
  0\<rightarrow>1 (1 unit), 0\<rightarrow>2 (1 unit), 1\<rightarrow>2 (10 units), 1\<rightarrow>3 (1 unit), 2\<rightarrow>3 (1 unit), with the
  table of least consumptions between its nodes.
\<close>

definition G_tight :: "nat digraph" where
  "G_tight = \<lparr> n_res = 1, nodes = [0, 1, 2, 3],
     succ = (\<lambda>u. if u = 0 then [(1, res_edge 1), (2, res_edge 1)]
                 else if u = 1 then [(2, res_edge 10), (3, res_edge 1)]
                 else if u = 2 then [(3, res_edge 1)]
                 else []) \<rparr>"

definition res_min_tight :: "nat bounds" where
  "res_min_tight =
     [map_of [(0, map_of [(0, 0), (1, 1), (2, 1), (3, 2)]),
              (1, map_of [(1, 0), (2, 10), (3, 1)]),
              (2, map_of [(2, 0), (3, 1)]),
              (3, map_of [(3, 0)])]]"

text \<open>Two nodes and one edge 0\<rightarrow>1 that consumes 5 units.\<close>

definition G_far :: "nat digraph" where
  "G_far = \<lparr> n_res = 1, nodes = [0, 1],
     succ = (\<lambda>u. if u = 0 then [(1, res_edge 5)] else []) \<rparr>"

text \<open>
  The spec's scenario with the edge B\<rightarrow>A of cost -10 added: an edge into the source.
  \<open>after_first_pass\<close> is the state of the search after the first pass of its main loop
  (budget 100, no bound known).
\<close>

definition G_back :: "nat digraph" where
  "G_back = \<lparr> n_res = 1, nodes = [0, 1, 2, 3],
     succ = (\<lambda>u. if u = 0 then [(1, unit_edge 1), (2, unit_edge 5)]
                 else if u = 1 then [(2, unit_edge 1), (0, unit_edge (- 10))]
                 else if u = 2 then [(3, unit_edge 1)]
                 else []) \<rparr>"

definition after_first_pass :: "nat digraph \<Rightarrow> nat search_state" where
  "after_first_pass G =
     (case GLSA_iter (\<lambda>xs. xs) G [] 0 3 [100] res_min_none (GLSA_init G [] 0) of
        Inl e \<Rightarrow> GLSA_init G [] 0
      | Inr st \<Rightarrow> st)"

text \<open>
  A chain 0\<rightarrow>1\<rightarrow>2\<rightarrow>3\<rightarrow>4 with the shortcut 0\<rightarrow>4, every edge consuming one unit. With budget
  2 node 2 can be reached from the source and can reach the target, while its only
  neighbours 1 and 3 cannot do both.
\<close>

definition G_iso :: "nat digraph" where
  "G_iso = \<lparr> n_res = 1, nodes = [0, 1, 2, 3, 4],
     succ = (\<lambda>u. if u = 0 then [(1, res_edge 1), (4, res_edge 1)]
                 else if u = 1 then [(2, res_edge 1)]
                 else if u = 2 then [(3, res_edge 1)]
                 else if u = 3 then [(4, res_edge 1)]
                 else []) \<rparr>"

section \<open>The specification's notion of a lexicographically minimal entry\<close>

text \<open>
  From the spec's words ("select the one whose resource vector is lexicographically
  minimal"): a pending entry is lexicographically minimal when no pending entry has a
  lexicographically smaller resource vector.
\<close>

fun lex_less :: "real list \<Rightarrow> real list \<Rightarrow> bool" where
  "lex_less (x # xs) (y # ys) = (x < y \<or> (x = y \<and> lex_less xs ys))"
| "lex_less xs ys = False"

definition lex_minimal :: "('n \<rightharpoonup> label list) \<Rightarrow> ('n \<times> nat) list \<Rightarrow> 'n \<times> nat \<Rightarrow> bool" where
  "lex_minimal lbs pending p =
     (case label_at lbs p of Inl e \<Rightarrow> False
      | Inr lab \<Rightarrow>
          list_all (\<lambda>q. case label_at lbs q of Inl e \<Rightarrow> True
                        | Inr lab' \<Rightarrow> \<not> lex_less (snd lab') (snd lab)) pending)"

section \<open>Predicates of the statements\<close>

text \<open>
  What the spec's data model says of a bound table: its entries are least consumptions
  of resources that are never negative, so no entry is negative and the entry from a
  node to itself, where present, is 0.
\<close>

definition bounds_nonneg :: "'n bounds \<Rightarrow> bool" where
  "bounds_nonneg res_min =
     (\<forall>tbl \<in> set res_min. \<forall>v row t d. tbl v = Some row \<longrightarrow> row t = Some d \<longrightarrow> 0 \<le> d)"

definition self_distance_zero :: "'n bounds \<Rightarrow> bool" where
  "self_distance_zero res_min =
     (\<forall>tbl \<in> set res_min. \<forall>n row. tbl n = Some row \<longrightarrow> get_or_zero row n = 0)"

text \<open>A label's first \<open>nr\<close> resource entries are within the budget \<open>max_res\<close>.\<close>

definition within_budget :: "nat \<Rightarrow> real list \<Rightarrow> label \<Rightarrow> bool" where
  "within_budget nr max_res lab = (\<forall>r < nr. r < length (snd lab) \<and> snd lab ! r \<le> max_res ! r)"

text \<open>Every label stored at any node is within the budget.\<close>

definition labels_within :: "nat \<Rightarrow> real list \<Rightarrow> 'n search_state \<Rightarrow> bool" where
  "labels_within nr max_res st =
     (\<forall>v ls. labels st v = Some ls \<longrightarrow> (\<forall>lab \<in> set ls. within_budget nr max_res lab))"

text \<open>No label stored at a node dominates another label stored at the same node.\<close>

definition nondominated :: "'n search_state \<Rightarrow> bool" where
  "nondominated st =
     (\<forall>v ls. labels st v = Some ls \<longrightarrow> (\<forall>a \<in> set ls. \<forall>b \<in> set ls. \<not> is_dominated a b))"

section \<open>GSSA returns elementary paths\<close>

lemma count_elems_set:
  "set (count_elems xs) = (\<lambda>x. (x, count_list xs x)) ` set xs"
  by (induction xs) auto

lemma fold_max_ge_init:
  "m \<le> fold (\<lambda>q m. if snd q > m then snd q else m) ps (m::nat)"
proof (induction ps arbitrary: m)
  case Nil
  then show ?case by simp
next
  case (Cons p ps)
  have "m \<le> (if snd p > m then snd p else m)" by simp
  also have "\<dots> \<le> fold (\<lambda>q m. if snd q > m then snd q else m) ps (if snd p > m then snd p else m)"
    by (rule Cons.IH)
  finally show ?case by simp
qed

lemma fold_max_ge_elems:
  "p \<in> set ps \<Longrightarrow> snd p \<le> fold (\<lambda>q m. if snd q > m then snd q else m) ps (m::nat)"
proof (induction ps arbitrary: m)
  case Nil
  then show ?case by simp
next
  case (Cons q ps)
  show ?case
  proof (cases "p = q")
    case True
    have "snd p \<le> (if snd q > m then snd q else m)" using True by simp
    also have "\<dots> \<le> fold (\<lambda>q m. if snd q > m then snd q else m) ps (if snd q > m then snd q else m)"
      by (rule fold_max_ge_init)
    finally show ?thesis by simp
  next
    case False
    with Cons.prems have "p \<in> set ps" by simp
    from Cons.IH[OF this] show ?thesis by simp
  qed
qed

lemma max_value_bound:
  assumes "max_value d = Inr m" and "p \<in> set d"
  shows "snd p \<le> m"
proof (cases d)
  case Nil
  with assms(2) show ?thesis by simp
next
  case (Cons q qs)
  have "max_value (q # qs) = Inr m" using assms(1) unfolding Cons .
  then have m: "fold (\<lambda>q m. if snd q > m then snd q else m) qs (snd q) = m"
    unfolding max_value_def by simp
  show ?thesis
  proof (cases "p = q")
    case True
    show ?thesis unfolding True m[symmetric] by (rule fold_max_ge_init)
  next
    case False
    with assms(2) Cons have "p \<in> set qs" by simp
    then show ?thesis unfolding m[symmetric] by (rule fold_max_ge_elems)
  qed
qed

lemma count_le_1_distinct:
  "(\<And>x. x \<in> set xs \<Longrightarrow> count_list xs x \<le> 1) \<Longrightarrow> distinct xs"
proof (induction xs)
  case Nil
  then show ?case by simp
next
  case (Cons a xs)
  have "count_list (a # xs) a \<le> 1" by (rule Cons.prems) simp
  then have "count_list xs a = 0" by simp
  then have a: "a \<notin> set xs" by (simp add: count_list_0_iff)
  have "\<And>x. x \<in> set xs \<Longrightarrow> count_list xs x \<le> 1"
  proof -
    fix x assume x: "x \<in> set xs"
    then have "count_list (a # xs) x \<le> 1" using Cons.prems by simp
    then show "count_list xs x \<le> 1" by (simp split: if_splits)
  qed
  then have "distinct xs" by (rule Cons.IH)
  with a show ?case by simp
qed

lemma max_value_1_distinct:
  assumes "max_value (count_elems path) = Inr 1"
  shows "distinct path"
proof (rule count_le_1_distinct)
  fix x assume "x \<in> set path"
  then have "(x, count_list path x) \<in> set (count_elems path)"
    by (simp add: count_elems_set)
  from max_value_bound[OF assms this] show "count_list path x \<le> 1" by simp
qed

lemma GSSA_loop_returns:
  fixes G :: "'n digraph"
  assumes "GSSA_loop io G source target max_res res_min S = Some r"
  shows "\<forall>found. r = Inr found \<longrightarrow>
       max_value (count_elems (fst found)) = Inr 1 \<and>
       (\<exists>S'. GLSA io G S' source target max_res res_min = Some (Inr found))"
proof (rule GSSA_loop.raw_induct[where P = "\<lambda>io G source target max_res res_min S r.
    \<forall>found. r = Inr found \<longrightarrow>
       max_value (count_elems (fst found)) = Inr 1 \<and>
       (\<exists>S'. GLSA io G S' source target max_res res_min = Some (Inr found))", OF _ assms])
  fix f :: "(('n \<times> nat) list \<Rightarrow> ('n \<times> nat) list) \<Rightarrow> 'n digraph \<Rightarrow> 'n \<Rightarrow> 'n \<Rightarrow> real list
      \<Rightarrow> 'n bounds \<Rightarrow> 'n list \<Rightarrow> (error + ('n list \<times> label)) option"
    and io G source target max_res res_min S r
  assume IH: "\<And>io G source target max_res res_min S r.
      f io G source target max_res res_min S = Some r \<Longrightarrow>
      \<forall>found. r = Inr found \<longrightarrow>
       max_value (count_elems (fst found)) = Inr 1 \<and>
       (\<exists>S'. GLSA io G S' source target max_res res_min = Some (Inr found))"
  assume body: "(case GLSA io G S source target max_res res_min of
        None \<Rightarrow> None
      | Some (Inl e) \<Rightarrow> Some (Inl e)
      | Some (Inr found) \<Rightarrow>
          (case max_value (count_elems (fst found)) of
             Inl e \<Rightarrow> Some (Inl e)
           | Inr path_max_mult \<Rightarrow>
               if path_max_mult = 1 then Some (Inr found)
               else (case max_key (count_elems (fst found)) of
                       Inl e \<Rightarrow> Some (Inl e)
                     | Inr node_max_mult \<Rightarrow>
                         f io G source target max_res res_min (S @ [node_max_mult])))) = Some r"
  show "\<forall>found. r = Inr found \<longrightarrow>
       max_value (count_elems (fst found)) = Inr 1 \<and>
       (\<exists>S'. GLSA io G S' source target max_res res_min = Some (Inr found))"
  proof (cases "GLSA io G S source target max_res res_min")
    case None
    with body show ?thesis by simp
  next
    case (Some res)
    show ?thesis
    proof (cases res)
      case (Inl e)
      with Some body show ?thesis by auto
    next
      case (Inr found)
      note glsa = Some[unfolded Inr]
      show ?thesis
      proof (cases "max_value (count_elems (fst found))")
        case (Inl e)
        with glsa body show ?thesis by auto
      next
        case mv: (Inr m)
        show ?thesis
        proof (cases "m = 1")
          case True
          with mv glsa body show ?thesis by auto
        next
          case False
          show ?thesis
          proof (cases "max_key (count_elems (fst found))")
            case (Inl e)
            with False mv glsa body show ?thesis by auto
          next
            case (Inr k)
            with False mv glsa body
            have "f io G source target max_res res_min (S @ [k]) = Some r" by simp
            then show ?thesis by (rule IH)
          qed
        qed
      qed
    qed
  qed
qed

text \<open>
  Claim C1. Whenever \<open>GSSA\<close> returns a path, that path visits no node more than once:
  the loop only returns what a \<open>GLSA\<close> invocation (for some list \<open>S\<close>) returned, and only
  when the greatest node multiplicity of that path is 1.
\<close>

theorem GSSA_returns_elementary_path:
  assumes "GSSA io G source target max_res res_min = Some (Inr (best_path, best_label))"
  shows "distinct best_path \<and>
         (\<exists>S. GLSA io G S source target max_res res_min = Some (Inr (best_path, best_label)) \<and>
              max_value (count_elems best_path) = Inr 1)"
proof -
  from assms have "GSSA_loop io G source target max_res res_min [] = Some (Inr (best_path, best_label))"
    by (simp add: GSSA_def)
  from GSSA_loop_returns[OF this]
  have mv: "max_value (count_elems best_path) = Inr 1"
    and ex: "\<exists>S. GLSA io G S source target max_res res_min = Some (Inr (best_path, best_label))"
    by auto
  from mv have "distinct best_path" by (rule max_value_1_distinct)
  with mv ex show ?thesis by blast
qed

lemma GSSA_cycle_eval:
  "GSSA (\<lambda>xs. xs) G_cycle 0 3 [6] res_min_cycle = Some (Inr ([0, 1, 2, 3], - 8, [3, 1]))"
  by code_simp

theorem GSSA_returns_elementary_path_witness:
  "GSSA (\<lambda>xs. xs) G_cycle 0 3 [6] res_min_cycle = Some (Inr ([0, 1, 2, 3], - 8, [3, 1])) \<and>
   distinct [0::nat, 1, 2, 3]"
proof -
  have d: "distinct [0::nat, 1, 2, 3]"
    by (rule GSSA_returns_elementary_path[OF GSSA_cycle_eval, THEN conjunct1])
  show ?thesis by (rule conjI[OF GSSA_cycle_eval d])
qed

section \<open>Selection takes the first pending entry\<close>

lemma scan_res_first:
  "scan_res lbs res None (x # xs) = Inr this \<Longrightarrow> \<exists>rest. this = x # rest"
  by (auto split: sum.splits)

lemma select_loop_first:
  "select_loop lbs (r # rs) (x # xs) u = Inr (Some y) \<Longrightarrow> y = x"
proof (induction rs arbitrary: r xs u)
  case Nil
  from Nil.prems obtain cand where sc: "scan_res lbs r None (x # xs) = Inr cand"
    by (cases "scan_res lbs r None (x # xs)") auto
  from scan_res_first[OF sc] obtain rest where cand: "cand = x # rest" by blast
  from Nil.prems show ?case unfolding select_loop.simps sc cand
    by (simp split: if_splits)
next
  case (Cons r' rs)
  from Cons.prems obtain cand where sc: "scan_res lbs r None (x # xs) = Inr cand"
    by (cases "scan_res lbs r None (x # xs)") auto
  from scan_res_first[OF sc] obtain rest where cand: "cand = x # rest" by blast
  have step: "select_loop lbs (r # r' # rs) (x # xs) u =
      (if length (x # rest) = 1 then Inr (Some x)
       else select_loop lbs (r' # rs) (x # rest) (Some x))"
    unfolding select_loop.simps(2)[of lbs r "r' # rs"] sc cand by simp
  show ?case
  proof (cases "length (x # rest) = 1")
    case True
    with Cons.prems step show ?thesis by simp
  next
    case False
    with Cons.prems step
    have "select_loop lbs (r' # rs) (x # rest) (Some x) = Inr (Some y)" by simp
    then show ?thesis by (rule Cons.IH)
  qed
qed

lemma GLSA_select_first:
  assumes "GLSA_select io lbs n pending = Inr (u, rest)" and "0 < n"
  shows "\<exists>xs. io pending = u # xs"
proof -
  from assms(2) obtain r rs where upt: "[0..<n] = r # rs"
    by (cases "[0..<n]") auto
  from assms(1) have sel: "select_loop lbs (r # rs) (io pending) None = Inr (Some u)"
    unfolding GLSA_select_def upt by (auto split: sum.splits option.splits)
  show ?thesis
  proof (cases "io pending")
    case Nil
    with sel show ?thesis by simp
  next
    case (Cons x xs)
    with sel have "u = x" using select_loop_first by metis
    with Cons show ?thesis by simp
  qed
qed

text \<open>
  Claim C4 states that the entry removed from \<open>L\<close> is lexicographically minimal among
  the pending entries. The source keeps every entry that is not above the running
  minimum and then takes the first one kept, so the entry removed is the first that the
  iteration over \<open>L\<close> yields (\<open>GLSA_select_first\<close>). After the first pass over \<open>G_fork\<close>
  the pending entries are \<open>(1, 0)\<close> with resources \<open>[5]\<close> and \<open>(2, 0)\<close> with resources
  \<open>[3]\<close>: iterating in this order the search removes \<open>(1, 0)\<close>, which is not minimal; in the
  opposite order the same happens on \<open>G_fork_mirror\<close>, where it removes \<open>(2, 0)\<close>.
\<close>

theorem GLSA_select_not_lex_minimal:
  "(case GLSA_iter (\<lambda>xs. xs) G_fork [] 0 3 [20] res_min_none (GLSA_init G_fork [] 0) of
      Inl e \<Rightarrow> False
    | Inr st \<Rightarrow>
        L st = [(1, 0), (2, 0)] \<and>
        label_at (labels st) (1, 0) = Inr (1, [5]) \<and>
        label_at (labels st) (2, 0) = Inr (1, [3]) \<and>
        GLSA_select (\<lambda>xs. xs) (labels st) 1 (L st) = Inr ((1, 0), [(2, 0)]) \<and>
        \<not> lex_minimal (labels st) (L st) (1, 0))
   \<and>
   (case GLSA_iter rev G_fork_mirror [] 0 3 [20] res_min_none (GLSA_init G_fork_mirror [] 0) of
      Inl e \<Rightarrow> False
    | Inr st \<Rightarrow>
        L st = [(1, 0), (2, 0)] \<and>
        label_at (labels st) (1, 0) = Inr (1, [3]) \<and>
        label_at (labels st) (2, 0) = Inr (1, [5]) \<and>
        GLSA_select rev (labels st) 1 (L st) = Inr ((2, 0), [(1, 0)]) \<and>
        \<not> lex_minimal (labels st) (L st) (2, 0))"
  by code_simp

section \<open>Strong dominance on a concrete candidate\<close>

text \<open>
  Claim C5 states that the synthetic dimension of a node \<open>n\<close> of \<open>S\<close> is set to 1 when the
  candidate's resources plus the bound from \<open>v\<close> to \<open>n\<close> exceed the budget. The source
  consults the bound from \<open>n\<close> to \<open>n\<close> instead. In \<open>G_tight\<close> with \<open>S = [2]\<close> and budget 5 the
  candidate at node 1 has consumed 1 unit and the bound from node 1 to node 2 is 10, so
  node 2 is out of reach; the tightening leaves the candidate \<open>[1, 0]\<close> as it is, and so
  it is stored.
\<close>

theorem strong_dominance_consults_self_distance:
  "(case dict_get (res_min_tight ! 0) 1 of Inl e \<Rightarrow> False
    | Inr row \<Rightarrow> 1 + get_or_zero row 2 > (5::real))
   \<and> strong_dominance res_min_tight [5] [2] 1 [1, 0] = Inr [1, 0]
   \<and> (case GLSA_iter (\<lambda>xs. xs) G_tight [2] 0 3 [5] res_min_tight (GLSA_init G_tight [2] 0) of
        Inl e \<Rightarrow> False
      | Inr st \<Rightarrow> labels st 1 = Some [(1, [1, 0])])"
  by code_simp

section \<open>Preprocessing when the source or the target drops out\<close>

lemma reachable_loop_source_dropped:
  "list_get max_res res = Inr cutoff \<Longrightarrow> sssp G source cutoff res = Inr lengths \<Longrightarrow>
   source \<notin> set lengths \<or> source \<notin> set reachable_nodes \<Longrightarrow>
   reachable_loop sssp G source target max_res (res # rs) reachable_nodes = Inl AttributeError"
  by auto

lemma reachable_loop_target_dropped:
  "list_get max_res res = Inr cutoff \<Longrightarrow> sssp G source cutoff res = Inr lengths \<Longrightarrow>
   sssp (reverse G) target cutoff res = Inr lengths' \<Longrightarrow>
   target \<notin> set lengths \<or> target \<notin> set lengths' \<or> target \<notin> set reachable_nodes \<Longrightarrow>
   reachable_loop sssp G source target max_res (res # rs) reachable_nodes = Inl AttributeError"
  by auto

lemma G_far_lengths:
  "dijkstra_path_length G_far 0 1 0 = Inr [0]"
  "dijkstra_path_length (reverse G_far) 1 1 0 = Inr [1]"
  by code_simp+

text \<open>
  Claim C6 states that the source and the target stay among the reachable nodes and
  that preprocessing completes. The source tries to put them back with \<^verbatim>\<open>append\<close>, which
  a Python set does not have. In \<open>G_far\<close> with budget 1 the target is 5 units away: the
  forward distances hold only node 0, the backward distances only node 1, and
  preprocessing ends with \<^verbatim>\<open>AttributeError\<close>.
\<close>

theorem preprocess_ESPPRC_append_on_set:
  "dijkstra_path_length G_far 0 1 0 = Inr [0] \<and>
   dijkstra_path_length (reverse G_far) 1 1 0 = Inr [1] \<and>
   preprocess_ESPPRC ion dijkstra_path_length apsp G_far 0 1 [1] = Inl AttributeError"
proof -
  have n: "n_res G_far = 1" "nodes G_far = [0, 1]" by (simp_all add: G_far_def)
  have "reachable_loop dijkstra_path_length G_far 0 1 [1] [0] [0, 1] = Inl AttributeError"
    by code_simp
  then have "preprocess_ESPPRC ion dijkstra_path_length apsp G_far 0 1 [1] = Inl AttributeError"
    by (simp add: preprocess_ESPPRC_def n)
  with G_far_lengths show ?thesis by simp
qed

section \<open>Loops that stop at the first error\<close>

lemma for_each_append:
  "for_each body (xs @ ys) st =
     (case for_each body xs st of Inl e \<Rightarrow> Inl e | Inr st' \<Rightarrow> for_each body ys st')"
  by (induction xs arbitrary: st) (auto split: sum.splits)

lemma for_each_invariant:
  assumes step: "\<And>x s s'. x \<in> set xs \<Longrightarrow> P s \<Longrightarrow> body x s = Inr s' \<Longrightarrow> P s'"
    and "P st" and "for_each body xs st = Inr st'"
  shows "P st'"
  using assms
proof (induction xs arbitrary: st)
  case Nil
  then show ?case by simp
next
  case (Cons x xs)
  from Cons.prems(3) obtain s1 where b: "body x st = Inr s1"
    and rest: "for_each body xs s1 = Inr st'"
    by (auto split: sum.splits)
  have "P s1" using Cons.prems(1)[of x st s1] Cons.prems(2) b by simp
  moreover have "\<And>y s s'. y \<in> set xs \<Longrightarrow> P s \<Longrightarrow> body y s = Inr s' \<Longrightarrow> P s'"
    using Cons.prems(1) by (meson list.set_intros(2))
  ultimately show ?case using Cons.IH rest by blast
qed

lemma GLSA_loop_error:
  "L st \<noteq> [] \<Longrightarrow> GLSA_iter io G S source target max_res res_min st = Inl e \<Longrightarrow>
   GLSA_loop io G S source target max_res res_min st = Some (Inl e)"
  by (subst GLSA_loop.simps) simp

section \<open>An edge into the source\<close>

lemma relax_edge_source:
  "relax_edge G S source target max_res res_min u l (source, e) st = Inl SystemExit"
  by (simp add: relax_edge_def)

text \<open>
  Claim C9. When the label selected for extension sits at a node \<open>u\<close> that has the source
  among its successors, the search stops with \<^verbatim>\<open>SystemExit\<close> (the source logs
  "source cannot be a child" and calls \<^verbatim>\<open>quit()\<close>) as soon as the loop over the
  successors reaches that edge: the edge is not relaxed, no later edge is treated, and
  the main loop does not go on.
\<close>

theorem GLSA_source_child_fails_fast:
  assumes "L st \<noteq> []"
    and "GLSA_select io (labels st) (n_res G + length S) (L st) = Inr ((u, l), pending)"
    and "succ_items G u = Inr (es1 @ (source, e) # es2)"
    and "\<not> isl (for_each (relax_edge G S source target max_res res_min u l) es1
                  (st\<lparr> L := pending \<rparr>))"
  shows "GLSA_iter io G S source target max_res res_min st = Inl SystemExit \<and>
         GLSA_loop io G S source target max_res res_min st = Some (Inl SystemExit)"
proof -
  from assms(4) obtain st1 where
    pre: "for_each (relax_edge G S source target max_res res_min u l) es1 (st\<lparr> L := pending \<rparr>) = Inr st1"
    by (cases "for_each (relax_edge G S source target max_res res_min u l) es1 (st\<lparr> L := pending \<rparr>)") auto
  have "for_each (relax_edge G S source target max_res res_min u l) (es1 @ (source, e) # es2)
          (st\<lparr> L := pending \<rparr>) = Inl SystemExit"
    by (simp add: for_each_append pre relax_edge_source)
  then have it: "GLSA_iter io G S source target max_res res_min st = Inl SystemExit"
    by (simp add: GLSA_iter_def assms(2) assms(3))
  from GLSA_loop_error[OF assms(1) it] it show ?thesis by simp
qed

lemma G_back_hyps:
  "L (after_first_pass G_back) \<noteq> []"
  "GLSA_select (\<lambda>xs. xs) (labels (after_first_pass G_back)) (n_res G_back + length ([]::nat list))
     (L (after_first_pass G_back)) = Inr ((1, 0), [(2, 0)])"
  "succ_items G_back 1 = Inr ([(2, unit_edge 1)] @ (0, unit_edge (- 10)) # [])"
  "\<not> isl (for_each (relax_edge G_back [] 0 3 [100] res_min_none 1 0) [(2, unit_edge 1)]
            ((after_first_pass G_back)\<lparr> L := [(2, 0)] \<rparr>))"
  by code_simp+

theorem GLSA_source_child_fails_fast_witness:
  "GLSA_iter (\<lambda>xs. xs) G_back [] 0 3 [100] res_min_none (after_first_pass G_back) = Inl SystemExit \<and>
   GLSA_loop (\<lambda>xs. xs) G_back [] 0 3 [100] res_min_none (after_first_pass G_back)
     = Some (Inl SystemExit)"
  by (rule GLSA_source_child_fails_fast[OF G_back_hyps])

lemma GLSA_G_back: "GLSA (\<lambda>xs. xs) G_back [] 0 3 [100] res_min_none = Some (Inl SystemExit)"
  by code_simp

section \<open>No label at the target\<close>

lemma cheapest_member:
  "cheapest ls ps idxs least_cost best = Inr (Some (pa, lab)) \<Longrightarrow>
   best = Some (pa, lab) \<or> lab \<in> set ls"
proof (induction idxs arbitrary: least_cost best)
  case Nil
  then show ?case by simp
next
  case (Cons p rest)
  show ?case
  proof (cases "list_get ls p")
    case (Inl e)
    with Cons.prems show ?thesis by simp
  next
    case (Inr lab')
    then have mem: "lab' \<in> set ls" by (auto simp: list_get_def split: if_splits)
    show ?thesis
    proof (cases "case least_cost of None \<Rightarrow> True | Some c \<Rightarrow> fst lab' < c")
      case True
      show ?thesis
      proof (cases "list_get ps p")
        case (Inl e)
        with True Inr Cons.prems show ?thesis by simp
      next
        case pa': (Inr pa')
        with True Inr Cons.prems
        have "cheapest ls ps rest (Some (fst lab')) (Some (pa', lab')) = Inr (Some (pa, lab))"
          by simp
        from Cons.IH[OF this] mem show ?thesis by auto
      qed
    next
      case False
      with Inr Cons.prems
      have "cheapest ls ps rest least_cost best = Inr (Some (pa, lab))" by simp
      from Cons.IH[OF this] show ?thesis .
    qed
  qed
qed

theorem GLSA_infeasible_counterexample:
  "GLSA (\<lambda>xs. xs) G_abcd [] 0 3 [0] res_min_abcd = Some (Inl KeyError)"
  by code_simp

text \<open>
  Claim C3, as amended. When the main loop ends and no label is stored at the target,
  \<open>GLSA\<close> ends with the \<^verbatim>\<open>KeyError\<close> of \<^verbatim>\<open>labels[target]\<close>; it has no result that reports
  infeasibility. When it does return a path and a label, the label is one of those
  stored at the target.
\<close>

theorem GLSA_no_label_at_target:
  "((case GLSA_loop io G S source target max_res res_min (GLSA_init G S source) of
       Some (Inr st) \<Rightarrow> labels st target = None | _ \<Rightarrow> False)
     \<longrightarrow> GLSA io G S source target max_res res_min = Some (Inl KeyError))
   \<and> (GLSA io G S source target max_res res_min = Some (Inr (best_path, best_label))
     \<longrightarrow> (case GLSA_loop io G S source target max_res res_min (GLSA_init G S source) of
           Some (Inr st) \<Rightarrow> (\<exists>ls. labels st target = Some ls \<and> best_label \<in> set ls)
         | _ \<Rightarrow> False))"
proof (intro conjI impI)
  assume "case GLSA_loop io G S source target max_res res_min (GLSA_init G S source) of
       Some (Inr st) \<Rightarrow> labels st target = None | _ \<Rightarrow> False"
  then show "GLSA io G S source target max_res res_min = Some (Inl KeyError)"
    by (auto simp: GLSA_def GLSA_result_def dict_get_def split: option.splits sum.splits)
next
  assume r: "GLSA io G S source target max_res res_min = Some (Inr (best_path, best_label))"
  then obtain st where loop: "GLSA_loop io G S source target max_res res_min (GLSA_init G S source) = Some (Inr st)"
    and res: "GLSA_result target st = Inr (best_path, best_label)"
    by (auto simp: GLSA_def split: option.splits sum.splits)
  from res obtain ls ps where ls: "labels st target = Some ls"
    and ch: "cheapest ls ps [0..<length ls] None None = Inr (Some (best_path, best_label))"
    by (auto simp: GLSA_result_def dict_get_def split: option.splits sum.splits)
  from cheapest_member[OF ch] have "best_label \<in> set ls" by simp
  with ls loop show "case GLSA_loop io G S source target max_res res_min (GLSA_init G S source) of
           Some (Inr st) \<Rightarrow> (\<exists>ls. labels st target = Some ls \<and> best_label \<in> set ls)
         | _ \<Rightarrow> False"
    by simp
qed

lemma G_fork_no_label:
  "(case GLSA_loop (\<lambda>xs. xs) G_fork [] 0 3 [2] res_min_none (GLSA_init G_fork [] 0) of
       Some (Inr st) \<Rightarrow> labels st 3 = None | _ \<Rightarrow> False)"
  by code_simp

theorem GLSA_no_label_at_target_witness:
  "(case GLSA_loop (\<lambda>xs. xs) G_fork [] 0 3 [2] res_min_none (GLSA_init G_fork [] 0) of
       Some (Inr st) \<Rightarrow> labels st 3 = None | _ \<Rightarrow> False)
   \<and> GLSA (\<lambda>xs. xs) G_fork [] 0 3 [2] res_min_none = Some (Inl KeyError)"
proof -
  have "GLSA (\<lambda>xs. xs) G_fork [] 0 3 [2] res_min_none = Some (Inl KeyError)"
    by (rule GLSA_no_label_at_target[THEN conjunct1, rule_format, OF G_fork_no_label])
  with G_fork_no_label show ?thesis by (rule conjI)
qed

section \<open>How one relaxation changes the labels\<close>

lemma pop_label_labels:
  assumes "pop_label v i st = Inr st'" and "labels st v = Some ls"
  shows "i < length ls \<and> labels st' = (labels st)(v \<mapsto> take i ls @ drop (Suc i) ls)"
  using assms
  by (auto simp: pop_label_def dict_get_def pop_def Let_def split: option.splits sum.splits if_splits)

lemma remove_dominated_labels:
  "remove_dominated v c i n st = Inr st' \<Longrightarrow> labels st v = Some ls \<Longrightarrow> n = length ls \<Longrightarrow>
   labels st' = (labels st)(v \<mapsto> take i ls @ filter (\<lambda>x. \<not> is_dominated x c) (drop i ls))"
proof (induction v c i n st arbitrary: ls rule: remove_dominated.induct)
  case (1 v c i n st)
  show ?case
  proof (cases "i < n")
    case False
    with "1.prems" have "st' = st" by (simp add: remove_dominated.simps)
    moreover from False "1.prems"(3) have "take i ls = ls" "drop i ls = []" by simp_all
    ultimately show ?thesis using "1.prems"(2) by (simp add: fun_upd_idem)
  next
    case True
    with "1.prems" have lab: "label_at (labels st) (v, i) = Inr (ls ! i)"
      by (simp add: label_at_def dict_get_def list_get_def)
    have dropi: "drop i ls = ls ! i # drop (Suc i) ls"
      using True "1.prems"(3) by (simp add: Cons_nth_drop_Suc)
    show ?thesis
    proof (cases "is_dominated (ls ! i) c")
      case dom: True
      from "1.prems"(1) True lab dom obtain st1 where
        pl: "pop_label v i st = Inr st1" and
        rec: "remove_dominated v c i (n - 1) st1 = Inr st'"
        by (subst (asm) remove_dominated.simps) (auto split: sum.splits)
      from pop_label_labels[OF pl "1.prems"(2)]
      have l1: "labels st1 = (labels st)(v \<mapsto> take i ls @ drop (Suc i) ls)" by simp
      then have l1v: "labels st1 v = Some (take i ls @ drop (Suc i) ls)" by simp
      have len: "n - 1 = length (take i ls @ drop (Suc i) ls)"
        using True "1.prems"(3) by simp
      have "labels st' = (labels st1)(v \<mapsto> take i (take i ls @ drop (Suc i) ls) @
              filter (\<lambda>x. \<not> is_dominated x c) (drop i (take i ls @ drop (Suc i) ls)))"
        by (rule "1.IH"(1)[OF True lab dom pl rec l1v len])
      moreover have "take i (take i ls @ drop (Suc i) ls) @
              filter (\<lambda>x. \<not> is_dominated x c) (drop i (take i ls @ drop (Suc i) ls)) =
            take i ls @ filter (\<lambda>x. \<not> is_dominated x c) (drop i ls)"
        using True "1.prems"(3) dom by (simp add: dropi)
      ultimately show ?thesis using l1 by simp
    next
      case ndom: False
      from "1.prems"(1) True lab ndom have
        rec: "remove_dominated v c (i + 1) n st = Inr st'"
        by (subst (asm) remove_dominated.simps) (auto split: sum.splits)
      have "labels st' = (labels st)(v \<mapsto> take (i + 1) ls @
              filter (\<lambda>x. \<not> is_dominated x c) (drop (i + 1) ls))"
        by (rule "1.IH"(2)[OF True lab ndom rec "1.prems"(2) "1.prems"(3)])
      moreover have "take (i + 1) ls = take i ls @ [ls ! i]"
        using True "1.prems"(3) by (simp add: take_Suc_conv_app_nth)
      ultimately show ?thesis using ndom dropi by simp
    qed
  qed
qed


lemma insert_label_labels:
  assumes ins: "insert_label res_min max_res S nr u l v c st = Inr st'"
  shows "st' = st \<or>
    (\<exists>r. strong_dominance res_min max_res S nr (snd c) = Inr r \<and>
      \<not> list_ex (\<lambda>label. is_dominated c label) (case labels st v of None \<Rightarrow> [] | Some ls \<Rightarrow> ls) \<and>
      labels st' = (labels st)(v \<mapsto>
        filter (\<lambda>x. \<not> is_dominated x (fst c, r)) (case labels st v of None \<Rightarrow> [] | Some ls \<Rightarrow> ls)
          @ [(fst c, r)]))"
proof (cases "list_ex (\<lambda>label. is_dominated c label) (case labels st v of None \<Rightarrow> [] | Some ls \<Rightarrow> ls)")
  case True
  with ins show ?thesis by (simp add: insert_label_def)
next
  case False
  define ls0 where "ls0 = (case labels st v of None \<Rightarrow> [] | Some ls \<Rightarrow> ls)"
  define st1 where "st1 = (if labels st v = None
      then st\<lparr> paths := (paths st)(v \<mapsto> []), labels := (labels st)(v \<mapsto> []) \<rparr> else st)"
  have l1v: "labels st1 v = Some ls0"
    by (cases "labels st v") (simp_all add: st1_def ls0_def)
  have l1: "(labels st1)(v \<mapsto> X) = (labels st)(v \<mapsto> X)" for X
    by (simp add: st1_def)
  have ls0': "(case labels st1 v of None \<Rightarrow> [] | Some ls \<Rightarrow> ls) = ls0"
    by (simp add: l1v)
  from ins False have body:
    "(case dict_get (paths st1) u of Inl e \<Rightarrow> Inl e | Inr pu \<Rightarrow>
       (case list_get pu l of Inl e \<Rightarrow> Inl e | Inr p \<Rightarrow>
         (case strong_dominance res_min max_res S nr (snd c) of Inl e \<Rightarrow> Inl e
          | Inr r \<Rightarrow>
            (case remove_dominated v (fst c, r) 0 (length ls0) st1 of
               Inl e \<Rightarrow> Inl e
             | Inr st2 \<Rightarrow>
               (case dict_get (paths st2) v of Inl e \<Rightarrow> Inl e | Inr ps \<Rightarrow>
                 (case dict_get (labels st2) v of Inl e \<Rightarrow> Inl e | Inr ls \<Rightarrow>
                    Inr (st2\<lparr> paths := (paths st2)(v \<mapsto> ps @ [p @ [v]]),
                               labels := (labels st2)(v \<mapsto> ls @ [(fst c, r)]),
                               L := set_add (v, length (ls @ [(fst c, r)]) - 1) (L st2) \<rparr>))))))) = Inr st'"
    unfolding insert_label_def Let_def st1_def[symmetric] ls0' ls0_def[symmetric] by simp
  then obtain r st2 ls ps p where
    sd: "strong_dominance res_min max_res S nr (snd c) = Inr r" and
    rd: "remove_dominated v (fst c, r) 0 (length ls0) st1 = Inr st2" and
    l2v: "dict_get (labels st2) v = Inr ls" and
    st': "st' = st2\<lparr> paths := (paths st2)(v \<mapsto> ps @ [p @ [v]]),
                     labels := (labels st2)(v \<mapsto> ls @ [(fst c, r)]),
                     L := set_add (v, length (ls @ [(fst c, r)]) - 1) (L st2) \<rparr>"
    by (auto split: sum.splits)
  from remove_dominated_labels[OF rd l1v refl]
  have l2: "labels st2 = (labels st)(v \<mapsto> filter (\<lambda>x. \<not> is_dominated x (fst c, r)) ls0)"
    by (simp add: l1)
  with l2v have ls: "ls = filter (\<lambda>x. \<not> is_dominated x (fst c, r)) ls0"
    by (simp add: dict_get_def)
  have "labels st' = (labels st)(v \<mapsto> filter (\<lambda>x. \<not> is_dominated x (fst c, r)) ls0 @ [(fst c, r)])"
    by (simp add: st' l2 ls)
  with sd False show ?thesis unfolding ls0_def by blast
qed

lemma relax_edge_labels:
  assumes "relax_edge G S source target max_res res_min u l ve st = Inr st'"
  shows "st' = st \<or>
    (\<exists>c r. check_edge_res res_min max_res (fst ve) target (snd c) [0..<n_res G] = Inr True \<and>
      strong_dominance res_min max_res S (n_res G) (snd c) = Inr r \<and>
      \<not> list_ex (\<lambda>label. is_dominated c label)
           (case labels st (fst ve) of None \<Rightarrow> [] | Some ls \<Rightarrow> ls) \<and>
      labels st' = (labels st)(fst ve \<mapsto>
        filter (\<lambda>x. \<not> is_dominated x (fst c, r))
          (case labels st (fst ve) of None \<Rightarrow> [] | Some ls \<Rightarrow> ls) @ [(fst c, r)]))"
proof -
  from assms obtain el ul edge_ok node_ok where
    ce: "check_edge_res res_min max_res (fst ve) target
           (map2 (+) (snd ul) el) [0..<n_res G] = Inr edge_ok" and
    fin: "(if edge_ok \<and> node_ok
          then insert_label res_min max_res S (n_res G) u l (fst ve)
                 (fst ul + weight (snd ve), map2 (+) (snd ul) el) st
          else Inr st) = Inr st'"
    by (auto simp: relax_edge_def Let_def split: if_splits sum.splits)
  show ?thesis
  proof (cases "edge_ok \<and> node_ok")
    case False
    with fin show ?thesis by auto
  next
    case True
    with fin have ins: "insert_label res_min max_res S (n_res G) u l (fst ve)
                 (fst ul + weight (snd ve), map2 (+) (snd ul) el) st = Inr st'" by simp
    from True ce have ce': "check_edge_res res_min max_res (fst ve) target
           (snd (fst ul + weight (snd ve), map2 (+) (snd ul) el)) [0..<n_res G] = Inr True"
      by simp
    from insert_label_labels[OF ins] ce' show ?thesis by blast
  qed
qed

section \<open>Feasibility pruning and the tightening step\<close>

lemma check_edge_res_True:
  "check_edge_res res_min max_res v target r rs = Inr True \<Longrightarrow> res \<in> set rs \<Longrightarrow>
   res < length r \<and> res < length res_min \<and> res < length max_res \<and>
   (\<exists>row. (res_min ! res) v = Some row \<and> r ! res + get_or_zero row target \<le> max_res ! res)"
proof (induction rs)
  case Nil
  then show ?case by simp
next
  case (Cons a rs)
  from Cons.prems(1) have
    a: "a < length r \<and> a < length res_min \<and> a < length max_res \<and>
        (\<exists>row. (res_min ! a) v = Some row \<and> r ! a + get_or_zero row target \<le> max_res ! a)"
    and rest: "check_edge_res res_min max_res v target r rs = Inr True"
    by (auto simp: list_get_def dict_get_def split: sum.splits if_splits option.splits)
  show ?case
  proof (cases "res = a")
    case True
    with a show ?thesis by simp
  next
    case False
    with Cons.prems(2) have "res \<in> set rs" by simp
    from Cons.IH[OF rest this] show ?thesis .
  qed
qed

lemma get_or_zero_nonneg:
  assumes "bounds_nonneg res_min" and "res < length res_min" and "(res_min ! res) v = Some row"
  shows "0 \<le> get_or_zero row t"
proof (cases "row t")
  case None
  then show ?thesis by (simp add: get_or_zero_def)
next
  case (Some d)
  from assms(2) have "res_min ! res \<in> set res_min" by simp
  with assms(1,3) Some have "0 \<le> d" unfolding bounds_nonneg_def by blast
  with Some show ?thesis by (simp add: get_or_zero_def)
qed

lemma check_edge_res_within:
  assumes "bounds_nonneg res_min"
    and "check_edge_res res_min max_res v target r [0..<nr] = Inr True"
    and "res < nr"
  shows "res < length r \<and> res < length res_min \<and> res < length max_res \<and>
         r ! res \<le> max_res ! res"
proof -
  from assms(3) have "res \<in> set [0..<nr]" by simp
  from check_edge_res_True[OF assms(2) this] obtain row where
    b: "res < length r" "res < length res_min" "res < length max_res" and
    row: "(res_min ! res) v = Some row" and
    le: "r ! res + get_or_zero row target \<le> max_res ! res"
    by blast
  from get_or_zero_nonneg[OF assms(1) b(2) row] have "0 \<le> get_or_zero row target" .
  with le have "r ! res \<le> max_res ! res" by linarith
  with b show ?thesis by simp
qed

lemma strong_res_prefix:
  "strong_res res_min max_res S nr n rs r = Inr r' \<Longrightarrow>
   length r' = length r \<and> (\<forall>i < nr. r' ! i = r ! i)"
proof (induction rs arbitrary: r)
  case Nil
  then show ?case by simp
next
  case (Cons res rs)
  from Cons.prems obtain r1 where
    r1: "r1 = r \<or> r1 = r[nr + index S n := 1]" and
    rest: "strong_res res_min max_res S nr n rs r1 = Inr r'"
    by (auto split: sum.splits if_splits)
  from r1 have "length r1 = length r \<and> (\<forall>i < nr. r1 ! i = r ! i)" by auto
  with Cons.IH[OF rest] show ?case by simp
qed

lemma strong_dominance_prefix:
  assumes "strong_dominance res_min max_res S nr r = Inr r'"
  shows "length r' = length r \<and> (\<forall>i < nr. r' ! i = r ! i)"
proof (rule for_each_invariant[where P = "\<lambda>s. length s = length r \<and> (\<forall>i < nr. s ! i = r ! i)"
      and body = "\<lambda>n. strong_res res_min max_res S nr n [0..<nr]" and xs = S and st = r])
  show "length r = length r \<and> (\<forall>i<nr. r ! i = r ! i)" by simp
  show "for_each (\<lambda>n. strong_res res_min max_res S nr n [0..<nr]) S r = Inr r'"
    using assms by (simp add: strong_dominance_def)
next
  fix x s s'
  assume "length s = length r \<and> (\<forall>i<nr. s ! i = r ! i)"
    and "strong_res res_min max_res S nr x [0..<nr] s = Inr s'"
  with strong_res_prefix[of res_min max_res S nr x "[0..<nr]" s s']
  show "length s' = length r \<and> (\<forall>i<nr. s' ! i = r ! i)" by simp
qed

lemma strong_res_unchanged:
  assumes "\<And>res. res \<in> set rs \<Longrightarrow>
      res < length r \<and> res < length res_min \<and> res < length max_res \<and>
      (\<forall>row. (res_min ! res) n = Some row \<longrightarrow> r ! res + get_or_zero row n \<le> max_res ! res)"
  shows "strong_res res_min max_res S nr n rs r =
         (if \<exists>res \<in> set rs. (res_min ! res) n = None then Inl KeyError else Inr r)"
  using assms
proof (induction rs)
  case Nil
  then show ?case by simp
next
  case (Cons a rs)
  have a: "a < length r \<and> a < length res_min \<and> a < length max_res \<and>
      (\<forall>row. (res_min ! a) n = Some row \<longrightarrow> r ! a + get_or_zero row n \<le> max_res ! a)"
    by (rule Cons.prems) simp
  have IH: "strong_res res_min max_res S nr n rs r =
         (if \<exists>res \<in> set rs. (res_min ! res) n = None then Inl KeyError else Inr r)"
    by (rule Cons.IH) (simp add: Cons.prems)
  show ?case
  proof (cases "(res_min ! a) n")
    case None
    with a show ?thesis by (simp add: list_get_def dict_get_def)
  next
    case (Some row)
    with a have "\<not> r ! a + get_or_zero row n > max_res ! a" by auto
    with a Some IH show ?thesis by (simp add: list_get_def dict_get_def)
  qed
qed

lemma for_each_strong_unchanged:
  assumes "\<And>n res. n \<in> set ns \<Longrightarrow> res < nr \<Longrightarrow>
      res < length r \<and> res < length res_min \<and> res < length max_res \<and>
      (\<forall>row. (res_min ! res) n = Some row \<longrightarrow> r ! res + get_or_zero row n \<le> max_res ! res)"
  shows "for_each (\<lambda>n. strong_res res_min max_res S nr n [0..<nr]) ns r =
         (if \<exists>n \<in> set ns. \<exists>res < nr. (res_min ! res) n = None then Inl KeyError else Inr r)"
  using assms
proof (induction ns)
  case Nil
  then show ?case by simp
next
  case (Cons n ns)
  have step: "strong_res res_min max_res S nr n [0..<nr] r =
         (if \<exists>res \<in> set [0..<nr]. (res_min ! res) n = None then Inl KeyError else Inr r)"
  proof (rule strong_res_unchanged)
    fix res assume "res \<in> set [0..<nr]"
    then have "res < nr" by simp
    with Cons.prems[of n res] show "res < length r \<and> res < length res_min \<and> res < length max_res \<and>
      (\<forall>row. (res_min ! res) n = Some row \<longrightarrow> r ! res + get_or_zero row n \<le> max_res ! res)"
      by simp
  qed
  have IH: "for_each (\<lambda>n. strong_res res_min max_res S nr n [0..<nr]) ns r =
         (if \<exists>n \<in> set ns. \<exists>res < nr. (res_min ! res) n = None then Inl KeyError else Inr r)"
  proof (rule Cons.IH)
    fix m res assume "m \<in> set ns" and "res < nr"
    with Cons.prems[of m res] show "res < length r \<and> res < length res_min \<and> res < length max_res \<and>
      (\<forall>row. (res_min ! res) m = Some row \<longrightarrow> r ! res + get_or_zero row m \<le> max_res ! res)"
      by simp
  qed
  show ?case
  proof (cases "\<exists>res < nr. (res_min ! res) n = None")
    case True
    then have "\<exists>res \<in> set [0..<nr]. (res_min ! res) n = None" by auto
    with step have "strong_res res_min max_res S nr n [0..<nr] r = Inl KeyError" by simp
    with True show ?thesis by auto
  next
    case False
    then have "\<not> (\<exists>res \<in> set [0..<nr]. (res_min ! res) n = None)" by auto
    with step have "strong_res res_min max_res S nr n [0..<nr] r = Inr r" by simp
    with IH False show ?thesis by auto
  qed
qed

lemma strong_dominance_unchanged:
  assumes nn: "bounds_nonneg res_min" and sz: "self_distance_zero res_min"
    and ck: "check_edge_res res_min max_res v target r [0..<nr] = Inr True"
  shows "strong_dominance res_min max_res S nr r =
         (if \<exists>n \<in> set S. \<exists>res < nr. (res_min ! res) n = None then Inl KeyError else Inr r)"
  unfolding strong_dominance_def
proof (rule for_each_strong_unchanged)
  fix n res
  assume "n \<in> set S" and res: "res < nr"
  from check_edge_res_within[OF nn ck res]
  have b: "res < length r" "res < length res_min" "res < length max_res"
    and le: "r ! res \<le> max_res ! res" by simp_all
  have "\<forall>row. (res_min ! res) n = Some row \<longrightarrow> r ! res + get_or_zero row n \<le> max_res ! res"
  proof (intro allI impI)
    fix row assume row: "(res_min ! res) n = Some row"
    from b(2) have "res_min ! res \<in> set res_min" by simp
    with sz row have "get_or_zero row n = 0" unfolding self_distance_zero_def by blast
    with le show "r ! res + get_or_zero row n \<le> max_res ! res" by simp
  qed
  with b show "res < length r \<and> res < length res_min \<and> res < length max_res \<and>
      (\<forall>row. (res_min ! res) n = Some row \<longrightarrow> r ! res + get_or_zero row n \<le> max_res ! res)"
    by simp
qed

section \<open>Invariants of the main loop\<close>

lemma GLSA_iter_invariant:
  assumes step: "\<And>u l ve s s'. P s \<Longrightarrow>
      relax_edge G S source target max_res res_min u l ve s = Inr s' \<Longrightarrow> P s'"
    and pend: "\<And>s x. P s \<Longrightarrow> P (s\<lparr> L := x \<rparr>)"
    and "P st" and it: "GLSA_iter io G S source target max_res res_min st = Inr st'"
  shows "P st'"
proof -
  from it obtain sel es where
    fe: "for_each (relax_edge G S source target max_res res_min (fst (fst sel)) (snd (fst sel)))
           es (st\<lparr> L := snd sel \<rparr>) = Inr st'"
    by (auto simp: GLSA_iter_def split: sum.splits)
  have "P (st\<lparr> L := snd sel \<rparr>)" using assms(3) by (rule pend)
  then show ?thesis using step for_each_invariant[OF _ _ fe, of P] by blast
qed

lemma GLSA_loop_invariant_aux:
  fixes G :: "'n digraph"
  assumes loop: "GLSA_loop io G S source target max_res res_min st = Some r"
  shows "(\<forall>s s'. P s \<longrightarrow> GLSA_iter io G S source target max_res res_min s = Inr s' \<longrightarrow> P s')
        \<longrightarrow> P st \<longrightarrow> (\<forall>st'. r = Inr st' \<longrightarrow> P st')"
proof (rule GLSA_loop.raw_induct[where P = "\<lambda>io G S source target max_res res_min st r.
      (\<forall>s s'. P s \<longrightarrow> GLSA_iter io G S source target max_res res_min s = Inr s' \<longrightarrow> P s')
        \<longrightarrow> P st \<longrightarrow> (\<forall>st'. r = Inr st' \<longrightarrow> P st')", OF _ loop])
  fix f :: "(('n \<times> nat) list \<Rightarrow> ('n \<times> nat) list) \<Rightarrow> 'n digraph \<Rightarrow> 'n list \<Rightarrow> 'n \<Rightarrow> 'n
      \<Rightarrow> real list \<Rightarrow> 'n bounds \<Rightarrow> 'n search_state \<Rightarrow> (error + 'n search_state) option"
    and io G S source target max_res res_min st r
  assume IH: "\<And>io G S source target max_res res_min st r.
      f io G S source target max_res res_min st = Some r \<Longrightarrow>
      (\<forall>s s'. P s \<longrightarrow> GLSA_iter io G S source target max_res res_min s = Inr s' \<longrightarrow> P s')
        \<longrightarrow> P st \<longrightarrow> (\<forall>st'. r = Inr st' \<longrightarrow> P st')"
  assume body: "(if L st = [] then Some (Inr st)
      else (case GLSA_iter io G S source target max_res res_min st of
              Inl e \<Rightarrow> Some (Inl e)
            | Inr st' \<Rightarrow> f io G S source target max_res res_min st')) = Some r"
  show "(\<forall>s s'. P s \<longrightarrow> GLSA_iter io G S source target max_res res_min s = Inr s' \<longrightarrow> P s')
        \<longrightarrow> P st \<longrightarrow> (\<forall>st'. r = Inr st' \<longrightarrow> P st')"
  proof (intro impI allI)
    fix st'
    assume stp: "\<forall>s s'. P s \<longrightarrow> GLSA_iter io G S source target max_res res_min s = Inr s' \<longrightarrow> P s'"
      and P: "P st" and r: "r = Inr st'"
    show "P st'"
    proof (cases "L st = []")
      case True
      with body r P show ?thesis by simp
    next
      case False
      show ?thesis
      proof (cases "GLSA_iter io G S source target max_res res_min st")
        case (Inl e)
        with False body r show ?thesis by simp
      next
        case (Inr s1)
        with False body have "f io G S source target max_res res_min s1 = Some r" by simp
        moreover from stp P Inr have "P s1" by blast
        ultimately show ?thesis using IH stp r by blast
      qed
    qed
  qed
qed

lemma GLSA_loop_invariant:
  assumes loop: "GLSA_loop io G S source target max_res res_min st = Some (Inr st')"
    and "P st"
    and step: "\<And>s s'. P s \<Longrightarrow> GLSA_iter io G S source target max_res res_min s = Inr s' \<Longrightarrow> P s'"
  shows "P st'"
  using GLSA_loop_invariant_aux[OF loop, of P] assms(2) step by blast

lemma GLSA_result_label:
  assumes "GLSA io G S source target max_res res_min = Some (Inr (best_path, best_label))"
  shows "\<exists>st ls. GLSA_loop io G S source target max_res res_min (GLSA_init G S source) = Some (Inr st)
          \<and> labels st target = Some ls \<and> best_label \<in> set ls"
proof -
  from assms obtain st where loop: "GLSA_loop io G S source target max_res res_min (GLSA_init G S source) = Some (Inr st)"
    and res: "GLSA_result target st = Inr (best_path, best_label)"
    by (auto simp: GLSA_def split: option.splits sum.splits)
  from res obtain ls ps where ls: "labels st target = Some ls"
    and ch: "cheapest ls ps [0..<length ls] None None = Inr (Some (best_path, best_label))"
    by (auto simp: GLSA_result_def dict_get_def split: option.splits sum.splits)
  from cheapest_member[OF ch] have "best_label \<in> set ls" by simp
  with ls loop show ?thesis by blast
qed

section \<open>Stored labels stay within the budget\<close>

lemma relax_edge_within:
  assumes nn: "bounds_nonneg res_min"
    and inv: "labels_within (n_res G) max_res st"
    and rel: "relax_edge G S source target max_res res_min u l ve st = Inr st'"
  shows "labels_within (n_res G) max_res st'"
proof -
  from relax_edge_labels[OF rel] show ?thesis
  proof
    assume "st' = st"
    with inv show ?thesis by simp
  next
    assume "\<exists>c r. check_edge_res res_min max_res (fst ve) target (snd c) [0..<n_res G] = Inr True \<and>
      strong_dominance res_min max_res S (n_res G) (snd c) = Inr r \<and>
      \<not> list_ex (\<lambda>label. is_dominated c label)
           (case labels st (fst ve) of None \<Rightarrow> [] | Some ls \<Rightarrow> ls) \<and>
      labels st' = (labels st)(fst ve \<mapsto>
        filter (\<lambda>x. \<not> is_dominated x (fst c, r))
          (case labels st (fst ve) of None \<Rightarrow> [] | Some ls \<Rightarrow> ls) @ [(fst c, r)])"
    then obtain c r where
      ck: "check_edge_res res_min max_res (fst ve) target (snd c) [0..<n_res G] = Inr True" and
      sd: "strong_dominance res_min max_res S (n_res G) (snd c) = Inr r" and
      lab: "labels st' = (labels st)(fst ve \<mapsto>
        filter (\<lambda>x. \<not> is_dominated x (fst c, r))
          (case labels st (fst ve) of None \<Rightarrow> [] | Some ls \<Rightarrow> ls) @ [(fst c, r)])"
      by blast
    have new: "within_budget (n_res G) max_res (fst c, r)"
      unfolding within_budget_def
    proof (intro allI impI)
      fix i assume i: "i < n_res G"
      from check_edge_res_within[OF nn ck i]
      have "i < length (snd c)" "snd c ! i \<le> max_res ! i" by simp_all
      moreover from strong_dominance_prefix[OF sd] i
      have "length r = length (snd c)" "r ! i = snd c ! i" by simp_all
      ultimately show "i < length (snd (fst c, r)) \<and> snd (fst c, r) ! i \<le> max_res ! i" by simp
    qed
    define ls0 where "ls0 = (case labels st (fst ve) of None \<Rightarrow> [] | Some ls \<Rightarrow> ls)"
    note lab = lab[folded ls0_def]
    have old: "\<forall>x \<in> set ls0. within_budget (n_res G) max_res x"
    proof (cases "labels st (fst ve)")
      case None
      then show ?thesis by (simp add: ls0_def)
    next
      case (Some ls)
      with inv show ?thesis unfolding labels_within_def ls0_def by auto
    qed
    show ?thesis
      unfolding labels_within_def
    proof (intro allI impI ballI)
      fix w ls x
      assume w: "labels st' w = Some ls" and x: "x \<in> set ls"
      show "within_budget (n_res G) max_res x"
      proof (cases "w = fst ve")
        case True
        with w lab have "ls = filter (\<lambda>x. \<not> is_dominated x (fst c, r)) ls0 @ [(fst c, r)]"
          by simp
        with x old new show ?thesis by auto
      next
        case False
        with w lab have "labels st w = Some ls" by simp
        with inv x show ?thesis unfolding labels_within_def by blast
      qed
    qed
  qed
qed

lemma GLSA_iter_within:
  assumes "bounds_nonneg res_min" and "labels_within (n_res G) max_res st"
    and "GLSA_iter io G S source target max_res res_min st = Inr st'"
  shows "labels_within (n_res G) max_res st'"
proof (rule GLSA_iter_invariant[where P = "labels_within (n_res G) max_res", OF _ _ assms(2,3)])
  fix u l ve s s'
  assume "labels_within (n_res G) max_res s"
    and "relax_edge G S source target max_res res_min u l ve s = Inr s'"
  then show "labels_within (n_res G) max_res s'" by (rule relax_edge_within[OF assms(1)])
next
  fix s :: "'a search_state" and x
  assume "labels_within (n_res G) max_res s"
  then show "labels_within (n_res G) max_res (s\<lparr> L := x \<rparr>)" by (simp add: labels_within_def)
qed

lemma GLSA_init_within:
  assumes "length max_res = n_res G" and "\<forall>m \<in> set max_res. 0 \<le> m"
  shows "labels_within (n_res G) max_res (GLSA_init G S source)"
  using assms
  by (auto simp: labels_within_def GLSA_init_def within_budget_def split: if_splits)

lemma GLSA_loop_within:
  assumes "length max_res = n_res G" and "\<forall>m \<in> set max_res. 0 \<le> m" and "bounds_nonneg res_min"
    and "GLSA_loop io G S source target max_res res_min (GLSA_init G S source) = Some (Inr st)"
  shows "labels_within (n_res G) max_res st"
proof (rule GLSA_loop_invariant[OF assms(4), where P = "labels_within (n_res G) max_res"])
  show "labels_within (n_res G) max_res (GLSA_init G S source)"
    using assms(1,2) by (rule GLSA_init_within)
next
  fix s s'
  assume "labels_within (n_res G) max_res s"
    and "GLSA_iter io G S source target max_res res_min s = Inr s'"
  then show "labels_within (n_res G) max_res s'" by (rule GLSA_iter_within[OF assms(3)])
qed

section \<open>The tightening step changes nothing\<close>

text \<open>
  Claim C10. Let the bound table hold no negative entry and 0 (or nothing) from every
  node to itself, and let a candidate with resources \<open>r\<close> at node \<open>v\<close> have passed the
  feasibility pruning. Then the strong-dominance step returns \<open>r\<close> unchanged: it consults
  the bound from each node of \<open>S\<close> to itself, so it would only fire on a resource that is
  over budget, which the pruning has excluded. (Where the table has no row for a node of
  \<open>S\<close> the lookup raises \<^verbatim>\<open>KeyError\<close>; no dimension is set to 1 either way.)
\<close>

theorem strong_dominance_is_identity:
  assumes "bounds_nonneg res_min" and "self_distance_zero res_min"
    and "check_edge_res res_min max_res v target r [0..<nr] = Inr True"
  shows "(case strong_dominance res_min max_res S nr r of
            Inl e \<Rightarrow> e = KeyError \<and> (\<exists>n \<in> set S. \<exists>res < nr. (res_min ! res) n = None)
          | Inr r' \<Rightarrow> r' = r)"
  by (simp add: strong_dominance_unchanged[OF assms])

lemma res_min_tight_ok:
  "bounds_nonneg res_min_tight" "self_distance_zero res_min_tight"
  by (auto simp: bounds_nonneg_def self_distance_zero_def res_min_tight_def get_or_zero_def
      split: if_splits)

lemma res_min_cycle_ok:
  "bounds_nonneg res_min_cycle" "self_distance_zero res_min_cycle"
  by (auto simp: bounds_nonneg_def self_distance_zero_def res_min_cycle_def get_or_zero_def
      split: if_splits)

lemma tight_check: "check_edge_res res_min_tight [5] 1 3 [1, 0] [0..<1] = Inr True"
  by code_simp

lemma tight_strong_not_error:
  "\<not> isl (strong_dominance res_min_tight [5] [2] 1 [1, 0])"
  by code_simp

theorem strong_dominance_is_identity_witness:
  "bounds_nonneg res_min_tight \<and> self_distance_zero res_min_tight \<and>
   check_edge_res res_min_tight [5] 1 3 [1, 0] [0..<1] = Inr True \<and>
   strong_dominance res_min_tight [5] [2] 1 [1, 0] = Inr [1, 0]"
proof -
  have "(case strong_dominance res_min_tight [5] [2] 1 [1, 0] of
            Inl e \<Rightarrow> e = KeyError \<and> (\<exists>n \<in> set [2]. \<exists>res < 1. (res_min_tight ! res) n = None)
          | Inr r' \<Rightarrow> r' = [1, 0])"
    by (rule strong_dominance_is_identity[OF res_min_tight_ok tight_check])
  with tight_strong_not_error
  have "strong_dominance res_min_tight [5] [2] 1 [1, 0] = Inr [1, 0]"
    by (cases "strong_dominance res_min_tight [5] [2] 1 [1, 0]") simp_all
  with res_min_tight_ok tight_check show ?thesis by simp
qed

section \<open>Every stored label is within the budget\<close>

lemma check_edge_res_missing_entry:
  assumes "list_get r res = Inr x" and "list_get res_min res = Inr tbl" and "tbl v = Some row"
    and "row target = None" and "list_get max_res res = Inr m"
  shows "check_edge_res res_min max_res v target r (res # rs) =
         (if x + 0 > m then Inr False else check_edge_res res_min max_res v target r rs)"
  using assms by (simp add: dict_get_def get_or_zero_def)

text \<open>
  Claim C2. Let \<open>max_res\<close> have one entry per resource, none negative, and let the bound
  table hold no negative entry. Then the label stored at the start is within the budget
  on the first \<open>n_res\<close> entries, every edge relaxation and every pass of the main loop
  keep all stored labels within the budget, so do the labels when the main loop ends,
  and so is the label \<open>GLSA\<close> returns. In the feasibility test a row without an entry for
  the target counts as bound 0: the test is evaluated with 0 and raises nothing.
\<close>

theorem GLSA_labels_within_budget:
  assumes "length max_res = n_res G" and "\<forall>m \<in> set max_res. 0 \<le> m"
    and "bounds_nonneg res_min"
  shows "labels_within (n_res G) max_res (GLSA_init G S source) \<and>
    (\<forall>u l ve st st'. labels_within (n_res G) max_res st \<longrightarrow>
        relax_edge G S source target max_res res_min u l ve st = Inr st' \<longrightarrow>
        labels_within (n_res G) max_res st') \<and>
    (\<forall>io st st'. labels_within (n_res G) max_res st \<longrightarrow>
        GLSA_iter io G S source target max_res res_min st = Inr st' \<longrightarrow>
        labels_within (n_res G) max_res st') \<and>
    (\<forall>io st. GLSA_loop io G S source target max_res res_min (GLSA_init G S source) = Some (Inr st)
        \<longrightarrow> labels_within (n_res G) max_res st) \<and>
    (\<forall>io best_path best_label.
        GLSA io G S source target max_res res_min = Some (Inr (best_path, best_label))
        \<longrightarrow> within_budget (n_res G) max_res best_label) \<and>
    (\<forall>r res x tbl v row m rs.
        list_get r res = Inr x \<longrightarrow> list_get res_min res = Inr tbl \<longrightarrow> tbl v = Some row \<longrightarrow>
        row target = None \<longrightarrow> list_get max_res res = Inr m \<longrightarrow>
        check_edge_res res_min max_res v target r (res # rs) =
          (if x + 0 > m then Inr False else check_edge_res res_min max_res v target r rs))"
proof (intro conjI allI impI)
  show "labels_within (n_res G) max_res (GLSA_init G S source)"
    using assms(1,2) by (rule GLSA_init_within)
next
  fix u l ve st st'
  assume "labels_within (n_res G) max_res st"
    and "relax_edge G S source target max_res res_min u l ve st = Inr st'"
  then show "labels_within (n_res G) max_res st'" by (rule relax_edge_within[OF assms(3)])
next
  fix io st st'
  assume "labels_within (n_res G) max_res st"
    and "GLSA_iter io G S source target max_res res_min st = Inr st'"
  then show "labels_within (n_res G) max_res st'" by (rule GLSA_iter_within[OF assms(3)])
next
  fix io st
  assume "GLSA_loop io G S source target max_res res_min (GLSA_init G S source) = Some (Inr st)"
  then show "labels_within (n_res G) max_res st" by (rule GLSA_loop_within[OF assms])
next
  fix io best_path best_label
  assume "GLSA io G S source target max_res res_min = Some (Inr (best_path, best_label))"
  from GLSA_result_label[OF this] obtain st ls where
    loop: "GLSA_loop io G S source target max_res res_min (GLSA_init G S source) = Some (Inr st)"
    and ls: "labels st target = Some ls" "best_label \<in> set ls" by blast
  from GLSA_loop_within[OF assms loop] ls
  show "within_budget (n_res G) max_res best_label" unfolding labels_within_def by blast
next
  fix r :: "real list" and res x tbl v row m rs
  assume "list_get r res = Inr x" "list_get res_min res = Inr tbl" "tbl v = Some row"
    "row target = None" "list_get max_res res = Inr m"
  then show "check_edge_res res_min max_res v target r (res # rs) =
          (if x + 0 > m then Inr False else check_edge_res res_min max_res v target r rs)"
    by (rule check_edge_res_missing_entry)
qed

lemma G_cycle_hyps:
  "length [6::real] = n_res G_cycle" "\<forall>m \<in> set [6::real]. 0 \<le> m"
  by (simp_all add: G_cycle_def)

lemma GLSA_cycle_eval:
  "GLSA (\<lambda>xs. xs) G_cycle [1] 0 3 [6] res_min_cycle = Some (Inr ([0, 1, 2, 3], - 8, [3, 1]))"
  by code_simp

theorem GLSA_labels_within_budget_witness:
  "length [6::real] = n_res G_cycle \<and> bounds_nonneg res_min_cycle \<and>
   GLSA (\<lambda>xs. xs) G_cycle [1] 0 3 [6] res_min_cycle = Some (Inr ([0, 1, 2, 3], - 8, [3, 1])) \<and>
   within_budget (n_res G_cycle) [6] (- 8, [3, 1])"
proof -
  note inst = GLSA_labels_within_budget[OF G_cycle_hyps res_min_cycle_ok(1), of "[1]" 0 3]
  from inst GLSA_cycle_eval have "within_budget (n_res G_cycle) [6] (- 8, [3, 1])" by blast
  with G_cycle_hyps(1) res_min_cycle_ok(1) GLSA_cycle_eval show ?thesis by simp
qed

section \<open>Dominance is a strict partial order\<close>

lemma is_dominated_iff:
  "is_dominated a b \<longleftrightarrow>
     \<not> (fst a = fst b \<and> (\<forall>p \<in> set (zip (snd a) (snd b)). fst p = snd p)) \<and>
     fst b \<le> fst a \<and> (\<forall>p \<in> set (zip (snd a) (snd b)). snd p \<le> fst p)"
proof -
  have ex: "(\<exists>p \<in> set (zip (snd a) (snd b)). fst p < snd p) \<longleftrightarrow>
            \<not> (\<forall>p \<in> set (zip (snd a) (snd b)). snd p \<le> fst p)"
    by (meson not_le)
  show ?thesis
    unfolding is_dominated_def Let_def list_all_iff list_ex_iff case_prod_beta ex
    by (simp add: not_less)
qed

lemma zip_all_nth:
  assumes "length xs = length ys"
  shows "(\<forall>p \<in> set (zip xs ys). P (fst p) (snd p)) \<longleftrightarrow> (\<forall>i < length xs. P (xs ! i) (ys ! i))"
proof -
  have "(\<forall>p \<in> set (zip xs ys). P (fst p) (snd p)) \<longleftrightarrow> list_all2 P xs ys"
    using assms unfolding list_all2_iff case_prod_beta by simp
  also have "\<dots> \<longleftrightarrow> (\<forall>i < length xs. P (xs ! i) (ys ! i))"
    using assms unfolding list_all2_conv_all_nth by simp
  finally show ?thesis .
qed

lemma zip_same_eq: "p \<in> set (zip xs xs) \<Longrightarrow> fst p = snd p"
proof -
  assume p: "p \<in> set (zip xs xs)"
  have "\<forall>i < length xs. xs ! i = xs ! i" by simp
  then have "\<forall>p \<in> set (zip xs xs). fst p = snd p"
    using zip_all_nth[of xs xs "(=)"] by simp
  from this p show ?thesis by (rule bspec)
qed

lemma is_dominated_irrefl: "\<not> is_dominated a a"
proof -
  have "\<forall>p \<in> set (zip (snd a) (snd a)). fst p = snd p"
    using zip_same_eq by (rule ballI)
  then show ?thesis unfolding is_dominated_iff by simp
qed

lemma zip_swap: "(x, y) \<in> set (zip xs ys) \<Longrightarrow> (y, x) \<in> set (zip ys xs)"
  by (induction xs ys rule: list_induct2') auto

lemma is_dominated_asym:
  assumes "is_dominated a b"
  shows "\<not> is_dominated b a"
proof
  assume ba: "is_dominated b a"
  from assms have ab1: "fst b \<le> fst a"
    and ab2: "\<forall>p \<in> set (zip (snd a) (snd b)). snd p \<le> fst p"
    and ne: "\<not> (fst a = fst b \<and> (\<forall>p \<in> set (zip (snd a) (snd b)). fst p = snd p))"
    unfolding is_dominated_iff by blast+
  from ba have ba1: "fst a \<le> fst b"
    and ba2: "\<forall>p \<in> set (zip (snd b) (snd a)). snd p \<le> fst p"
    unfolding is_dominated_iff by blast+
  have "\<forall>p \<in> set (zip (snd a) (snd b)). fst p = snd p"
  proof
    fix p assume p: "p \<in> set (zip (snd a) (snd b))"
    with ab2 have le1: "snd p \<le> fst p" by (rule bspec)
    from p have "(fst p, snd p) \<in> set (zip (snd a) (snd b))" by simp
    then have "(snd p, fst p) \<in> set (zip (snd b) (snd a))" by (rule zip_swap)
    with ba2 have "snd (snd p, fst p) \<le> fst (snd p, fst p)" by (rule bspec)
    then have "fst p \<le> snd p" by simp
    with le1 show "fst p = snd p" by (rule antisym[rotated])
  qed
  with ab1 ba1 ne show False by simp
qed

lemma is_dominated_nth:
  assumes "length (snd a) = length (snd b)"
  shows "is_dominated a b \<longleftrightarrow>
     a \<noteq> b \<and> fst b \<le> fst a \<and> (\<forall>i < length (snd a). snd b ! i \<le> snd a ! i)"
proof -
  have "(\<forall>p \<in> set (zip (snd a) (snd b)). fst p = snd p) \<longleftrightarrow>
        (\<forall>i < length (snd a). snd a ! i = snd b ! i)"
    using assms by (rule zip_all_nth)
  also have "\<dots> \<longleftrightarrow> snd a = snd b"
    using assms by (simp add: list_eq_iff_nth_eq)
  finally have eq: "(\<forall>p \<in> set (zip (snd a) (snd b)). fst p = snd p) \<longleftrightarrow> snd a = snd b" .
  have le: "(\<forall>p \<in> set (zip (snd a) (snd b)). snd p \<le> fst p) \<longleftrightarrow>
            (\<forall>i < length (snd a). snd b ! i \<le> snd a ! i)"
    using assms by (rule zip_all_nth[where P = "\<lambda>x y. y \<le> x"])
  have ne: "a \<noteq> b \<longleftrightarrow> \<not> (fst a = fst b \<and> snd a = snd b)"
    by (simp add: prod_eq_iff)
  show ?thesis unfolding is_dominated_iff eq le ne by simp
qed

lemma is_dominated_trans:
  assumes len: "length (snd a) = length (snd b)" "length (snd b) = length (snd c)"
    and ab: "is_dominated a b" and bc: "is_dominated b c"
  shows "is_dominated a c"
proof -
  from len have lac: "length (snd a) = length (snd c)" by simp
  from ab len(1) have ab': "a \<noteq> b" "fst b \<le> fst a" "\<forall>i < length (snd a). snd b ! i \<le> snd a ! i"
    by (simp_all add: is_dominated_nth)
  from bc len have bc': "b \<noteq> c" "fst c \<le> fst b" "\<forall>i < length (snd a). snd c ! i \<le> snd b ! i"
    by (simp_all add: is_dominated_nth)
  have le: "fst c \<le> fst a" "\<forall>i < length (snd a). snd c ! i \<le> snd a ! i"
    using ab' bc' by (auto intro: order_trans)
  have "a \<noteq> c"
  proof
    assume "a = c"
    with ab bc is_dominated_asym show False by blast
  qed
  with le lac show ?thesis by (simp add: is_dominated_nth)
qed

section \<open>Labels kept at a node do not dominate each other\<close>

lemma relax_edge_nondominated:
  assumes nn: "bounds_nonneg res_min" and sz: "self_distance_zero res_min"
    and inv: "nondominated st"
    and rel: "relax_edge G S source target max_res res_min u l ve st = Inr st'"
  shows "nondominated st'"
proof -
  from relax_edge_labels[OF rel] show ?thesis
  proof
    assume "st' = st"
    with inv show ?thesis by simp
  next
    assume "\<exists>c r. check_edge_res res_min max_res (fst ve) target (snd c) [0..<n_res G] = Inr True \<and>
      strong_dominance res_min max_res S (n_res G) (snd c) = Inr r \<and>
      \<not> list_ex (\<lambda>label. is_dominated c label)
           (case labels st (fst ve) of None \<Rightarrow> [] | Some ls \<Rightarrow> ls) \<and>
      labels st' = (labels st)(fst ve \<mapsto>
        filter (\<lambda>x. \<not> is_dominated x (fst c, r))
          (case labels st (fst ve) of None \<Rightarrow> [] | Some ls \<Rightarrow> ls) @ [(fst c, r)])"
    then obtain c r where
      ck: "check_edge_res res_min max_res (fst ve) target (snd c) [0..<n_res G] = Inr True" and
      sd: "strong_dominance res_min max_res S (n_res G) (snd c) = Inr r" and
      nd: "\<not> list_ex (\<lambda>label. is_dominated c label)
           (case labels st (fst ve) of None \<Rightarrow> [] | Some ls \<Rightarrow> ls)" and
      lab: "labels st' = (labels st)(fst ve \<mapsto>
        filter (\<lambda>x. \<not> is_dominated x (fst c, r))
          (case labels st (fst ve) of None \<Rightarrow> [] | Some ls \<Rightarrow> ls) @ [(fst c, r)])"
      by blast
    define ls0 where "ls0 = (case labels st (fst ve) of None \<Rightarrow> [] | Some ls \<Rightarrow> ls)"
    note lab = lab[folded ls0_def] and nd = nd[folded ls0_def]
    from strong_dominance_unchanged[OF nn sz ck, of S] sd have "r = snd c"
      by (simp split: if_splits)
    then have c: "(fst c, r) = c" by simp
    have old: "\<forall>a \<in> set ls0. \<forall>b \<in> set ls0. \<not> is_dominated a b"
    proof (cases "labels st (fst ve)")
      case None
      then show ?thesis by (simp add: ls0_def)
    next
      case (Some ls)
      with inv show ?thesis unfolding nondominated_def ls0_def by auto
    qed
    from nd have cnd: "\<forall>b \<in> set ls0. \<not> is_dominated c b" by (simp add: list_ex_iff)
    show ?thesis
      unfolding nondominated_def
    proof (intro allI impI ballI)
      fix w ls a b
      assume w: "labels st' w = Some ls" and a: "a \<in> set ls" and b: "b \<in> set ls"
      show "\<not> is_dominated a b"
      proof (cases "w = fst ve")
        case True
        with w lab c have ls: "ls = filter (\<lambda>x. \<not> is_dominated x c) ls0 @ [c]" by simp
        from a ls have a': "(a \<in> set ls0 \<and> \<not> is_dominated a c) \<or> a = c" by auto
        from b ls have b': "(b \<in> set ls0 \<and> \<not> is_dominated b c) \<or> b = c" by auto
        from a' b' old cnd is_dominated_irrefl show ?thesis by blast
      next
        case False
        with w lab have "labels st w = Some ls" by simp
        with inv a b show ?thesis unfolding nondominated_def by blast
      qed
    qed
  qed
qed

lemma GLSA_init_nondominated: "nondominated (GLSA_init G S source)"
  by (auto simp: nondominated_def GLSA_init_def is_dominated_irrefl split: if_splits)

lemma GLSA_iter_nondominated:
  assumes "bounds_nonneg res_min" and "self_distance_zero res_min" and "nondominated st"
    and "GLSA_iter io G S source target max_res res_min st = Inr st'"
  shows "nondominated st'"
proof (rule GLSA_iter_invariant[where P = nondominated, OF _ _ assms(3,4)])
  fix u l ve s s'
  assume "nondominated s"
    and "relax_edge G S source target max_res res_min u l ve s = Inr s'"
  then show "nondominated s'" by (rule relax_edge_nondominated[OF assms(1,2)])
next
  fix s :: "'a search_state" and x
  assume "nondominated s"
  then show "nondominated (s\<lparr> L := x \<rparr>)" by (simp add: nondominated_def)
qed

lemma GLSA_loop_nondominated:
  assumes "bounds_nonneg res_min" and "self_distance_zero res_min"
    and "GLSA_loop io G S source target max_res res_min (GLSA_init G S source) = Some (Inr st)"
  shows "nondominated st"
proof (rule GLSA_loop_invariant[OF assms(3), where P = nondominated])
  show "nondominated (GLSA_init G S source)" by (rule GLSA_init_nondominated)
next
  fix s s'
  assume "nondominated s" and "GLSA_iter io G S source target max_res res_min s = Inr s'"
  then show "nondominated s'" by (rule GLSA_iter_nondominated[OF assms(1,2)])
qed

text \<open>
  Claim C8. \<open>is_dominated\<close> is irreflexive and asymmetric, and transitive on labels whose
  resource vectors have the same number of entries (as all vectors of one search have).
  For a bound table as the data model has it (no negative entry, 0 from a node to
  itself) the labels kept at a node never dominate one another: this holds at the start,
  every edge relaxation keeps it, and it holds whenever the main loop ends.
\<close>

theorem dominance_strict_order_and_retained_labels:
  "\<not> is_dominated a a \<and>
   (is_dominated a b \<longrightarrow> \<not> is_dominated b a) \<and>
   (length (snd a) = length (snd b) \<longrightarrow> length (snd b) = length (snd c) \<longrightarrow>
      is_dominated a b \<longrightarrow> is_dominated b c \<longrightarrow> is_dominated a c) \<and>
   (bounds_nonneg res_min \<longrightarrow> self_distance_zero res_min \<longrightarrow>
      nondominated (GLSA_init G S source) \<and>
      (\<forall>u l ve st st'. nondominated st \<longrightarrow>
          relax_edge G S source target max_res res_min u l ve st = Inr st' \<longrightarrow> nondominated st') \<and>
      (\<forall>io st. GLSA_loop io G S source target max_res res_min (GLSA_init G S source)
                  = Some (Inr st) \<longrightarrow> nondominated st))"
proof (intro conjI impI allI)
  show "\<not> is_dominated a a" by (rule is_dominated_irrefl)
next
  assume "is_dominated a b"
  then show "\<not> is_dominated b a" by (rule is_dominated_asym)
next
  assume "length (snd a) = length (snd b)" "length (snd b) = length (snd c)"
    "is_dominated a b" "is_dominated b c"
  then show "is_dominated a c" by (rule is_dominated_trans)
next
  show "nondominated (GLSA_init G S source)" by (rule GLSA_init_nondominated)
next
  fix u l ve st st'
  assume "bounds_nonneg res_min" "self_distance_zero res_min" "nondominated st"
    "relax_edge G S source target max_res res_min u l ve st = Inr st'"
  then show "nondominated st'" by (rule relax_edge_nondominated)
next
  fix io st
  assume "bounds_nonneg res_min" "self_distance_zero res_min"
    "GLSA_loop io G S source target max_res res_min (GLSA_init G S source) = Some (Inr st)"
  then show "nondominated st" by (rule GLSA_loop_nondominated)
qed

lemma dominance_examples:
  "is_dominated (2, [2, 0]) (1, [1, 0])" "is_dominated (1, [1, 0]) (1, [0, 0])"
  "length (snd (2::real, [2, 0::real])) = length (snd (1::real, [1, 0::real]))"
  "length (snd (1::real, [1, 0::real])) = length (snd (1::real, [0, 0::real]))"
  by (simp_all add: is_dominated_def)

lemma G_cycle_loop_returns:
  "(case GLSA_loop (\<lambda>xs. xs) G_cycle [1] 0 3 [6] res_min_cycle (GLSA_init G_cycle [1] 0) of
      Some (Inr st) \<Rightarrow> True | _ \<Rightarrow> False)"
  by code_simp

theorem dominance_strict_order_and_retained_labels_witness:
  "is_dominated (2, [2, 0]) (1, [1, 0]) \<and> is_dominated (1, [1, 0]) (1, [0, 0]) \<and>
   \<not> is_dominated (1, [1, 0]) (2, [2, 0]) \<and> is_dominated (2, [2, 0]) (1, [0, 0]) \<and>
   bounds_nonneg res_min_cycle \<and> self_distance_zero res_min_cycle \<and>
   (case GLSA_loop (\<lambda>xs. xs) G_cycle [1] 0 3 [6] res_min_cycle (GLSA_init G_cycle [1] 0) of
      Some (Inr st) \<Rightarrow> nondominated st | _ \<Rightarrow> False)"
proof -
  note inst = dominance_strict_order_and_retained_labels[of "(2, [2, 0])" "(1, [1, 0])"
      "(1, [0, 0])" res_min_cycle G_cycle "[1]" 0 3 "[6]"]
  from inst dominance_examples(1) have asym: "\<not> is_dominated (1, [1, 0]) (2, [2, 0])"
    by blast
  from inst dominance_examples have trans: "is_dominated (2, [2, 0]) (1, [0, 0])"
    by blast
  from G_cycle_loop_returns obtain st where
    loop: "GLSA_loop (\<lambda>xs. xs) G_cycle [1] 0 3 [6] res_min_cycle (GLSA_init G_cycle [1] 0)
            = Some (Inr st)"
    by (auto split: option.splits sum.splits)
  from inst res_min_cycle_ok loop have "nondominated st" by blast
  with loop have "(case GLSA_loop (\<lambda>xs. xs) G_cycle [1] 0 3 [6] res_min_cycle (GLSA_init G_cycle [1] 0) of
      Some (Inr st) \<Rightarrow> nondominated st | _ \<Rightarrow> False)" by simp
  with asym trans dominance_examples(1,2) res_min_cycle_ok show ?thesis by blast
qed

end
